theory Spec2Isabelle
  imports Main
begin

section \<open>Data model of \<open>lobby/orderbook.py\<close>\<close>

text \<open>
  Prices are the internal integer ticks (\<open>clipPrice\<close> has already been applied to a
  quote's price; a trade's float price is \<open>toFloatPrice\<close> of the tick stored here).
  Owner identifiers (\<open>tid\<close>) are integers, as in the tests.
\<close>

datatype error = KeyError

datatype side = Bid | Ask

datatype order_type = Limit | Market

datatype tif = GTC | IOC | FOK

datatype post_only_mode = Reject | Reprice

text \<open>
  Class \<open>_Order\<close>. An order object is held both by the queue of its level and by the
  id index of its side, and its quantity is changed in place. The field \<open>ref\<close> is the
  identity of the object: the objects are numbered in the order of their construction,
  and two records stand for the same object exactly when their \<open>ref\<close> is the same.
\<close>

record order =
  idNum :: int
  tid :: int
  price :: int
  qty :: int
  timestamp :: int
  ref :: nat

text \<open>Class \<open>_PriceLevel\<close>: the tick, the FIFO queue (head first) and the volume.\<close>

record price_level =
  lv_price :: int
  queue :: "order list"
  volume :: int

text \<open>Class \<open>_BookSide\<close>.\<close>

record book_side =
  priceMap :: "int \<rightharpoonup> price_level"
  prices :: "int list"
  orderMap :: "int \<rightharpoonup> order"
  nOrders :: int

text \<open>An entry of the iceberg registry \<open>OrderBook.icebergs\<close>.\<close>

record iceberg_info =
  ib_price :: int
  display :: int
  remaining :: int
  ib_tid :: int

text \<open>A record of the trade tape, as built by \<open>_record_trade\<close>.\<close>

record tape_entry =
  tp_qty :: int
  tp_price :: int
  taker_tid :: int
  maker_tid :: int

text \<open>An element of the trade list that \<open>processOrder\<close> returns.\<close>

record trade =
  t_qty :: int
  t_price :: int

text \<open>
  The state of class \<open>OrderBook\<close>. \<open>nextRef\<close> is the number of \<open>_Order\<close> objects
  constructed so far, the \<open>ref\<close> of the next one.
\<close>

record order_book =
  tape :: "tape_entry list"
  bids :: book_side
  asks :: book_side
  time :: int
  nextQuoteID :: int
  icebergs :: "int \<rightharpoonup> iceberg_info"
  nextRef :: nat

text \<open>
  The quote dictionary. The keys \<open>side\<close>, \<open>qty\<close> and \<open>tid\<close> are always present;
  the others are optional as in the source (\<open>None\<close> is an absent key).
\<close>

record quote =
  q_type :: order_type
  q_side :: side
  q_qty :: int
  q_price :: "int option"
  q_tid :: int
  q_tif :: tif
  post_only :: bool
  po_mode :: post_only_mode
  iceberg_total :: "int option"
  iceberg_display :: "int option"
  q_idNum :: "int option"
  q_timestamp :: "int option"

section \<open>Price level\<close>

definition new_level :: "int \<Rightarrow> price_level" where
  "new_level p = \<lparr>lv_price = p, queue = [], volume = 0\<rparr>"

definition is_empty :: "price_level \<Rightarrow> bool" where
  "is_empty lvl = (queue lvl = [])"

definition head :: "price_level \<Rightarrow> order option" where
  "head lvl = (case queue lvl of [] \<Rightarrow> None | h # _ \<Rightarrow> Some h)"

definition append_order :: "price_level \<Rightarrow> order \<Rightarrow> price_level" where
  "append_order lvl ord = lvl\<lparr>queue := queue lvl @ [ord], volume := volume lvl + qty ord\<rparr>"

text \<open>
  \<open>consume_head\<close> returns the quantity taken, the removed order (with its quantity
  already at zero) or \<open>None\<close>, and the level after the call.
\<close>

definition consume_head :: "price_level \<Rightarrow> int \<Rightarrow> int \<times> order option \<times> price_level" where
  "consume_head lvl need =
     (case queue lvl of
        [] \<Rightarrow> (0, None, lvl)
      | h # rest \<Rightarrow>
          if need \<le> 0 then (0, None, lvl)
          else
            let take = min need (qty h);
                h' = h\<lparr>qty := qty h - take\<rparr>;
                vol' = volume lvl - take
            in if qty h' = 0
               then (take, Some h', lvl\<lparr>queue := rest, volume := vol'\<rparr>)
               else (take, None, lvl\<lparr>queue := h' # rest, volume := vol'\<rparr>))"

section \<open>Book side\<close>

definition new_side :: book_side where
  "new_side = \<lparr>priceMap = Map.empty, prices = [], orderMap = Map.empty, nOrders = 0\<rparr>"

text \<open>The insertion loop of \<open>_ensure_level\<close>: before the first larger tick, else at the end.\<close>

fun insert_price :: "int \<Rightarrow> int list \<Rightarrow> int list" where
  "insert_price p [] = [p]"
| "insert_price p (x # xs) = (if p < x then p # x # xs else x # insert_price p xs)"

definition ensure_level :: "book_side \<Rightarrow> int \<Rightarrow> price_level \<times> book_side" where
  "ensure_level bs p =
     (case priceMap bs p of
        Some lvl \<Rightarrow> (lvl, bs)
      | None \<Rightarrow>
          (new_level p,
           bs\<lparr>priceMap := (priceMap bs)(p \<mapsto> new_level p),
              prices := insert_price p (prices bs)\<rparr>))"

definition prune_if_empty :: "book_side \<Rightarrow> int \<Rightarrow> book_side" where
  "prune_if_empty bs p =
     (case priceMap bs p of
        None \<Rightarrow> bs
      | Some lvl \<Rightarrow>
          if is_empty lvl
          then bs\<lparr>priceMap := (priceMap bs)(p := None), prices := remove1 p (prices bs)\<rparr>
          else bs)"

definition best_price_min :: "book_side \<Rightarrow> int option" where
  "best_price_min bs = (case prices bs of [] \<Rightarrow> None | p # _ \<Rightarrow> Some p)"

definition best_price_max :: "book_side \<Rightarrow> int option" where
  "best_price_max bs = (if prices bs = [] then None else Some (last (prices bs)))"

text \<open>
  \<open>insert_order\<close>: the level returned by \<open>_ensure_level\<close> is the object stored at the
  tick, so appending to it is an update of the tick index.
\<close>

definition insert_order :: "book_side \<Rightarrow> order \<Rightarrow> book_side" where
  "insert_order bs ord =
     (case ensure_level bs (price ord) of
        (lvl, bs1) \<Rightarrow>
          bs1\<lparr>priceMap := (priceMap bs1)(price ord \<mapsto> append_order lvl ord),
              orderMap := (orderMap bs1)(idNum ord \<mapsto> ord),
              nOrders := nOrders bs1 + 1\<rparr>)"

text \<open>
  The scan of \<open>remove_by_id\<close> over the level's queue: the first order with the id is
  dropped and its quantity leaves the volume; the others keep their order.
\<close>

fun scan_queue :: "int \<Rightarrow> order list \<Rightarrow> order list \<Rightarrow> bool \<Rightarrow> int \<Rightarrow> order list \<times> int" where
  "scan_queue i [] newq removed vol = (newq, vol)"
| "scan_queue i (ord # q) newq removed vol =
     (if \<not> removed \<and> idNum ord = i
      then scan_queue i q newq True (vol - qty ord)
      else scan_queue i q (newq @ [ord]) removed vol)"

definition remove_by_id :: "book_side \<Rightarrow> int \<Rightarrow> error + (order \<times> book_side)" where
  "remove_by_id bs i =
     (case orderMap bs i of
        None \<Rightarrow> Inl KeyError
      | Some ord \<Rightarrow>
          let bs1 = bs\<lparr>orderMap := (orderMap bs)(i := None)\<rparr>;
              bs2 = (case priceMap bs1 (price ord) of
                       None \<Rightarrow> bs1
                     | Some lvl \<Rightarrow>
                         (case scan_queue i (queue lvl) [] False (volume lvl) of
                            (newq, vol) \<Rightarrow>
                              prune_if_empty
                                (bs1\<lparr>priceMap := (priceMap bs1)
                                   (price ord \<mapsto> lvl\<lparr>queue := newq, volume := vol\<rparr>)\<rparr>)
                                (price ord)))
          in Inr (ord, bs2\<lparr>nOrders := nOrders bs2 - 1\<rparr>))"

section \<open>The order book\<close>

definition new_book :: order_book where
  "new_book = \<lparr>tape = [], bids = new_side, asks = new_side, time = 0, nextQuoteID = 1,
                icebergs = Map.empty, nextRef = 0\<rparr>"

text \<open>The side selected by \<open>self.bids if side == 'bid' else self.asks\<close>, and its update.\<close>

definition tree :: "order_book \<Rightarrow> side \<Rightarrow> book_side" where
  "tree st s = (if s = Bid then bids st else asks st)"

definition set_tree :: "order_book \<Rightarrow> side \<Rightarrow> book_side \<Rightarrow> order_book" where
  "set_tree st s bs = (if s = Bid then st\<lparr>bids := bs\<rparr> else st\<lparr>asks := bs\<rparr>)"

definition getBestAsk :: "order_book \<Rightarrow> int option" where
  "getBestAsk st = best_price_min (asks st)"

definition getBestBid :: "order_book \<Rightarrow> int option" where
  "getBestBid st = best_price_max (bids st)"

definition getVolumeAtPrice :: "order_book \<Rightarrow> side \<Rightarrow> int \<Rightarrow> int" where
  "getVolumeAtPrice st s ip =
     (case priceMap (tree st s) ip of None \<Rightarrow> 0 | Some lvl \<Rightarrow> volume lvl)"

definition record_trade :: "order_book \<Rightarrow> int \<Rightarrow> int \<Rightarrow> int \<Rightarrow> int \<Rightarrow> order_book" where
  "record_trade st q price_ip taker maker =
     st\<lparr>tape := tape st @ [\<lparr>tp_qty = q, tp_price = price_ip, taker_tid = taker, maker_tid = maker\<rparr>]\<rparr>"

definition is_marketable :: "order_book \<Rightarrow> side \<Rightarrow> int \<Rightarrow> bool" where
  "is_marketable st s price_ip =
     (if s = Bid
      then (case getBestAsk st of None \<Rightarrow> False | Some ba \<Rightarrow> price_ip \<ge> ba)
      else (case getBestBid st of None \<Rightarrow> False | Some bb \<Rightarrow> price_ip \<le> bb))"

text \<open>
  The two scans of \<open>_sum_depth_fok\<close>: over the ticks from the best one, while the tick is
  within the limit. \<open>priceMap[p]\<close> raises \<open>KeyError\<close> for a listed tick with no level.
\<close>

fun depth_le :: "(int \<rightharpoonup> price_level) \<Rightarrow> int \<Rightarrow> int list \<Rightarrow> int \<Rightarrow> error + int" where
  "depth_le pm lim [] tot = Inr tot"
| "depth_le pm lim (p # ps) tot =
     (if p \<le> lim
      then (case pm p of None \<Rightarrow> Inl KeyError | Some lvl \<Rightarrow> depth_le pm lim ps (tot + volume lvl))
      else Inr tot)"

fun depth_ge :: "(int \<rightharpoonup> price_level) \<Rightarrow> int \<Rightarrow> int list \<Rightarrow> int \<Rightarrow> error + int" where
  "depth_ge pm lim [] tot = Inr tot"
| "depth_ge pm lim (p # ps) tot =
     (if p \<ge> lim
      then (case pm p of None \<Rightarrow> Inl KeyError | Some lvl \<Rightarrow> depth_ge pm lim ps (tot + volume lvl))
      else Inr tot)"

definition sum_depth_fok :: "order_book \<Rightarrow> side \<Rightarrow> int \<Rightarrow> error + int" where
  "sum_depth_fok st taker_side limit_price_ip =
     (if taker_side = Bid
      then depth_le (priceMap (asks st)) limit_price_ip (prices (asks st)) 0
      else depth_ge (priceMap (bids st)) limit_price_ip (rev (prices (bids st))) 0)"

definition reprice_to_passive :: "order_book \<Rightarrow> side \<Rightarrow> int \<Rightarrow> int" where
  "reprice_to_passive st s price_ip =
     (if s = Bid
      then (case getBestBid st of None \<Rightarrow> price_ip | Some b \<Rightarrow> b)
      else (case getBestAsk st of None \<Rightarrow> price_ip | Some a \<Rightarrow> a))"

subsection \<open>Iceberg replenishment\<close>

definition iceberg_replenish_if_needed :: "order_book \<Rightarrow> side \<Rightarrow> order \<Rightarrow> order_book" where
  "iceberg_replenish_if_needed st book_side removed_order =
     (let old_id = idNum removed_order;
          st1 = st\<lparr>icebergs := (icebergs st)(old_id := None)\<rparr>
      in case icebergs st old_id of
           None \<Rightarrow> st1
         | Some info \<Rightarrow>
             if remaining info \<le> 0 then st1
             else
               let clip = min (display info) (remaining info);
                   new_id = nextQuoteID st1;
                   st2 = st1\<lparr>nextQuoteID := nextQuoteID st1 + 1\<rparr>;
                   ord = \<lparr>idNum = new_id, tid = ib_tid info, price = ib_price info,
                          qty = clip, timestamp = time st2, ref = nextRef st2\<rparr>;
                   st3 = set_tree (st2\<lparr>nextRef := nextRef st2 + 1\<rparr>) book_side
                           (insert_order (tree st2 book_side) ord);
                   info' = info\<lparr>remaining := remaining info - clip\<rparr>
               in if remaining info' > 0
                  then st3\<lparr>icebergs := (icebergs st3)(new_id \<mapsto> info')\<rparr>
                  else st3)"

subsection \<open>Matching against one price level\<close>

text \<open>
  \<open>_process_price_level\<close> receives the level object that its caller has just read from
  the side's tick index at tick \<open>p\<close>; the model passes \<open>p\<close> and reads the level there.
  \<open>consume_head\<close> mutates that object and its head order in place, which the model
  writes back to the tick index and, for the head order, to the id index when the entry
  under the head's id is that same object (\<open>sync_order\<close>); an entry that is another
  object with the same id is left as it is.
\<close>

definition sync_order :: "(int \<rightharpoonup> order) \<Rightarrow> order \<Rightarrow> order \<Rightarrow> (int \<rightharpoonup> order)" where
  "sync_order om old new =
     (case om (idNum old) of
        None \<Rightarrow> om
      | Some held \<Rightarrow> if ref held = ref old then om(idNum old \<mapsto> new) else om)"

definition level_cond :: "order_book \<Rightarrow> side \<Rightarrow> int \<Rightarrow> int \<Rightarrow> bool" where
  "level_cond st book_side p qtyToTrade =
     (qtyToTrade > 0 \<and>
      (case priceMap (tree st book_side) p of None \<Rightarrow> False | Some lvl \<Rightarrow> \<not> is_empty lvl))"

text \<open>The pruning of an emptied level inside \<open>_process_price_level\<close>.\<close>

definition drop_level :: "book_side \<Rightarrow> int \<Rightarrow> book_side" where
  "drop_level bs p =
     (if p \<in> dom (priceMap bs)
      then bs\<lparr>priceMap := (priceMap bs)(p := None), prices := remove1 p (prices bs)\<rparr>
      else bs)"

definition forget_order :: "book_side \<Rightarrow> int \<Rightarrow> book_side" where
  "forget_order bs i =
     (if i \<in> dom (orderMap bs)
      then bs\<lparr>orderMap := (orderMap bs)(i := None), nOrders := nOrders bs - 1\<rparr>
      else bs)"

text \<open>
  One pass through the body of the loop. The first component is \<open>True\<close> when the loop
  is left after this pass: by the \<open>break\<close> on a zero take, or because the level object
  has become empty (it is pruned from the index, and a replenishment at this tick goes
  to a fresh level object, so the loop's own test fails).
\<close>

definition level_iter ::
  "order_book \<Rightarrow> side \<Rightarrow> int \<Rightarrow> int \<Rightarrow> quote \<Rightarrow> trade list \<Rightarrow> bool \<times> int \<times> trade list \<times> order_book" where
  "level_iter st book_side p qtyToTrade taker_quote trades =
     (case priceMap (tree st book_side) p of
        None \<Rightarrow> (True, qtyToTrade, trades, st)
      | Some level \<Rightarrow>
         (case consume_head level qtyToTrade of
            (taken, removed, level') \<Rightarrow>
              let bs = tree st book_side;
                  om = (case queue level of [] \<Rightarrow> orderMap bs
                        | h # _ \<Rightarrow> sync_order (orderMap bs) h (h\<lparr>qty := qty h - taken\<rparr>));
                  bs1 = bs\<lparr>priceMap := (priceMap bs)(p \<mapsto> level'), orderMap := om\<rparr>;
                  st1 = set_tree st book_side bs1
              in if taken = 0 then (True, qtyToTrade, trades, st1)
                 else
                   (let qty' = qtyToTrade - taken;
                       maker = (case removed of
                                  Some r \<Rightarrow> tid r
                                | None \<Rightarrow> (case head level' of Some h \<Rightarrow> tid h | None \<Rightarrow> q_tid taker_quote));
                       st2 = record_trade st1 taken (lv_price level') (q_tid taker_quote) maker;
                       trades' = trades @ [\<lparr>t_qty = taken, t_price = lv_price level'\<rparr>]
                   in (case removed of
                         None \<Rightarrow> (False, qty', trades', st2)
                       | Some r \<Rightarrow>
                           (let bs2 = forget_order (tree st2 book_side) (idNum r);
                                bs3 = (if is_empty level' then drop_level bs2 (lv_price level') else bs2);
                                st3 = set_tree st2 book_side bs3;
                                st4 = iceberg_replenish_if_needed st3 book_side r
                            in (is_empty level', qty', trades', st4))))))"

partial_function (option) process_price_level ::
  "order_book \<Rightarrow> side \<Rightarrow> int \<Rightarrow> int \<Rightarrow> quote \<Rightarrow> trade list \<Rightarrow> (int \<times> trade list \<times> order_book) option" where
  "process_price_level st book_side p qtyToTrade taker_quote trades =
     (if level_cond st book_side p qtyToTrade
      then (case level_iter st book_side p qtyToTrade taker_quote trades of
              (leave, qty', trades', st') \<Rightarrow>
                if leave then Some (qty', trades', st')
                else process_price_level st' book_side p qty' taker_quote trades')
      else Some (qtyToTrade, trades, st))"

declare process_price_level.simps [code]

subsection \<open>The crossing loops\<close>

text \<open>
  The loops of \<open>_process_market\<close> and \<open>_process_limit\<close>. They return the quantity left
  and the trades; \<open>priceMap[best]\<close> raises \<open>KeyError\<close> when the best tick has no level.
  A loop that does not return has the value \<open>None\<close>.
\<close>

partial_function (option) market_loop ::
  "order_book \<Rightarrow> side \<Rightarrow> int \<Rightarrow> quote \<Rightarrow> trade list \<Rightarrow> ((error + int \<times> trade list) \<times> order_book) option" where
  "market_loop st sd qtyToTrade qt trades =
     (if qtyToTrade > 0 then
        (if sd = Bid then
           (case getBestAsk st of
              None \<Rightarrow> Some (Inr (qtyToTrade, trades), st)
            | Some best_ask \<Rightarrow>
                (case priceMap (asks st) best_ask of
                   None \<Rightarrow> Some (Inl KeyError, st)
                 | Some lvl \<Rightarrow>
                     Option.bind (process_price_level st Ask best_ask qtyToTrade qt [])
                       (\<lambda>(qty', newTrades, st'). market_loop st' sd qty' qt (trades @ newTrades))))
         else
           (case getBestBid st of
              None \<Rightarrow> Some (Inr (qtyToTrade, trades), st)
            | Some best_bid \<Rightarrow>
                (case priceMap (bids st) best_bid of
                   None \<Rightarrow> Some (Inl KeyError, st)
                 | Some lvl \<Rightarrow>
                     Option.bind (process_price_level st Bid best_bid qtyToTrade qt [])
                       (\<lambda>(qty', newTrades, st'). market_loop st' sd qty' qt (trades @ newTrades)))))
      else Some (Inr (qtyToTrade, trades), st))"

partial_function (option) limit_loop ::
  "order_book \<Rightarrow> side \<Rightarrow> int \<Rightarrow> int \<Rightarrow> quote \<Rightarrow> trade list \<Rightarrow> ((error + int \<times> trade list) \<times> order_book) option" where
  "limit_loop st sd price_ip qtyToTrade qt trades =
     (if qtyToTrade > 0 then
        (if sd = Bid then
           (case getBestAsk st of
              None \<Rightarrow> Some (Inr (qtyToTrade, trades), st)
            | Some best_ask \<Rightarrow>
                if best_ask > price_ip then Some (Inr (qtyToTrade, trades), st)
                else
                  (case priceMap (asks st) best_ask of
                     None \<Rightarrow> Some (Inl KeyError, st)
                   | Some lvl \<Rightarrow>
                       Option.bind (process_price_level st Ask best_ask qtyToTrade qt [])
                         (\<lambda>(qty', newTrades, st'). limit_loop st' sd price_ip qty' qt (trades @ newTrades))))
         else
           (case getBestBid st of
              None \<Rightarrow> Some (Inr (qtyToTrade, trades), st)
            | Some best_bid \<Rightarrow>
                if best_bid < price_ip then Some (Inr (qtyToTrade, trades), st)
                else
                  (case priceMap (bids st) best_bid of
                     None \<Rightarrow> Some (Inl KeyError, st)
                   | Some lvl \<Rightarrow>
                       Option.bind (process_price_level st Bid best_bid qtyToTrade qt [])
                         (\<lambda>(qty', newTrades, st'). limit_loop st' sd price_ip qty' qt (trades @ newTrades)))))
      else Some (Inr (qtyToTrade, trades), st))"

declare market_loop.simps [code]

declare limit_loop.simps [code]

subsection \<open>Order handlers\<close>

definition process_market :: "order_book \<Rightarrow> quote \<Rightarrow> ((error + trade list) \<times> order_book) option" where
  "process_market st qt =
     (case market_loop st (q_side qt) (q_qty qt) qt [] of
        None \<Rightarrow> None
      | Some (Inl e, st') \<Rightarrow> Some (Inl e, st')
      | Some (Inr (qtyLeft, trades), st') \<Rightarrow> Some (Inr trades, st'))"

text \<open>
  The Post-Only guard of \<open>_process_limit\<close>: \<open>None\<close> is the rejection, \<open>Some\<close> carries the
  price the order goes on with (the repriced one in mode \<open>reprice\<close>).
\<close>

definition post_only_guard :: "order_book \<Rightarrow> quote \<Rightarrow> int \<Rightarrow> int option" where
  "post_only_guard st qt price_ip =
     (if post_only qt \<and> is_marketable st (q_side qt) price_ip
      then (if po_mode qt = Reject then None
            else (let price' = reprice_to_passive st (q_side qt) price_ip
                  in if is_marketable st (q_side qt) price' then None else Some price'))
      else Some price_ip)"

text \<open>What \<open>_process_limit\<close> does after the crossing loop.\<close>

definition rest_order ::
  "order_book \<Rightarrow> quote \<Rightarrow> int \<Rightarrow> int \<Rightarrow> trade list \<Rightarrow> (error + trade list \<times> order option) \<times> order_book" where
  "rest_order st qt price_ip qtyToTrade trades =
     (if q_tif qt = IOC then (Inr (trades, None), st)
      else if qtyToTrade \<le> 0 then (Inr (trades, None), st)
      else
        (case (q_idNum qt, q_timestamp qt) of
           (Some i, Some ts) \<Rightarrow>
             (case (iceberg_total qt, iceberg_display qt) of
                (Some total_q, Some display_q) \<Rightarrow>
                  (let clip = min display_q (min total_q qtyToTrade);
                       ord = \<lparr>idNum = i, tid = q_tid qt, price = price_ip, qty = clip, timestamp = ts,
                              ref = nextRef st\<rparr>;
                       st1 = set_tree (st\<lparr>nextRef := nextRef st + 1\<rparr>) (q_side qt)
                               (insert_order (tree st (q_side qt)) ord);
                       remaining_q = total_q - clip;
                       st2 = (if remaining_q > 0
                              then st1\<lparr>icebergs := (icebergs st1)(idNum ord \<mapsto>
                                     \<lparr>ib_price = price_ip, display = display_q,
                                      remaining = remaining_q, ib_tid = q_tid qt\<rparr>)\<rparr>
                              else st1)
                   in (Inr (trades, Some ord), st2))
              | _ \<Rightarrow>
                  (let ord = \<lparr>idNum = i, tid = q_tid qt, price = price_ip, qty = qtyToTrade,
                              timestamp = ts, ref = nextRef st\<rparr>;
                       st1 = set_tree (st\<lparr>nextRef := nextRef st + 1\<rparr>) (q_side qt)
                               (insert_order (tree st (q_side qt)) ord)
                   in (Inr (trades, Some ord), st1)))
         | _ \<Rightarrow> (Inl KeyError, st)))"

definition process_limit ::
  "order_book \<Rightarrow> quote \<Rightarrow> ((error + trade list \<times> order option) \<times> order_book) option" where
  "process_limit st qt =
     (case q_price qt of
        None \<Rightarrow> Some (Inl KeyError, st)
      | Some price0 \<Rightarrow>
          (case (if q_tif qt = FOK then sum_depth_fok st (q_side qt) price0 else Inr (q_qty qt)) of
             Inl e \<Rightarrow> Some (Inl e, st)
           | Inr can \<Rightarrow>
               if q_tif qt = FOK \<and> q_qty qt > can then Some (Inr ([], None), st)
               else
                 (case post_only_guard st qt price0 of
                    None \<Rightarrow> Some (Inr ([], None), st)
                  | Some price_ip \<Rightarrow>
                      (case limit_loop st (q_side qt) price_ip (q_qty qt) qt [] of
                         None \<Rightarrow> None
                       | Some (Inl e, st') \<Rightarrow> Some (Inl e, st')
                       | Some (Inr (qtyLeft, trades), st') \<Rightarrow>
                           Some (rest_order st' qt price_ip qtyLeft trades)))))"

text \<open>
  \<open>processOrder\<close>. The result is \<open>None\<close> when the call does not return; otherwise the
  value returned or the exception raised, with the state the engine is left in.
\<close>

definition processOrder ::
  "order_book \<Rightarrow> quote \<Rightarrow> ((error + trade list \<times> order option) \<times> order_book) option" where
  "processOrder st qt =
     (let ts = (case q_timestamp qt of None \<Rightarrow> time st | Some t \<Rightarrow> t);
          st1 = st\<lparr>time := time st + 1\<rparr>;
          i = (case q_idNum qt of None \<Rightarrow> nextQuoteID st1 | Some j \<Rightarrow> j);
          st2 = (case q_idNum qt of None \<Rightarrow> st1\<lparr>nextQuoteID := nextQuoteID st1 + 1\<rparr> | Some j \<Rightarrow> st1);
          qt' = qt\<lparr>q_timestamp := Some ts, q_idNum := Some i\<rparr>
      in (case q_type qt of
            Market \<Rightarrow>
              (case process_market st2 qt' of
                 None \<Rightarrow> None
               | Some (Inl e, st') \<Rightarrow> Some (Inl e, st')
               | Some (Inr trades, st') \<Rightarrow> Some (Inr (trades, None), st'))
          | Limit \<Rightarrow>
              (case q_price qt of
                 None \<Rightarrow> Some (Inl KeyError, st2)
               | Some pr \<Rightarrow> process_limit st2 qt')))"

section \<open>Well-formed books and specification-level notions\<close>

text \<open>
  A level at tick \<open>p\<close> is well formed when it carries that tick, is not empty, its volume
  is the sum of the quantities in its queue, and every resting quantity is positive.
\<close>

definition level_ok :: "int \<Rightarrow> price_level \<Rightarrow> bool" where
  "level_ok p lvl \<longleftrightarrow>
     lv_price lvl = p \<and> queue lvl \<noteq> [] \<and> volume lvl = sum_list (map qty (queue lvl)) \<and>
     (\<forall>ord \<in> set (queue lvl). 0 < qty ord)"

text \<open>
  A side is well formed when its tick list is ascending without duplicates, lists exactly
  the ticks of the tick index, and every indexed level is well formed.
\<close>

definition side_ok :: "book_side \<Rightarrow> bool" where
  "side_ok bs \<longleftrightarrow>
     sorted (prices bs) \<and> distinct (prices bs) \<and> set (prices bs) = dom (priceMap bs) \<and>
     (\<forall>p lvl. priceMap bs p = Some lvl \<longrightarrow> level_ok p lvl)"

definition registry_ok :: "(int \<rightharpoonup> iceberg_info) \<Rightarrow> bool" where
  "registry_ok reg \<longleftrightarrow> (\<forall>i info. reg i = Some info \<longrightarrow> 0 < display info \<and> 0 < remaining info)"

definition book_ok :: "order_book \<Rightarrow> bool" where
  "book_ok st \<longleftrightarrow> side_ok (bids st) \<and> side_ok (asks st) \<and> registry_ok (icebergs st)"

text \<open>
  The depth of the specification: the volumes of the opposite side's levels at ticks at or
  better than the limit (asks at ticks \<open>\<le> lim\<close> for a bid, bids at ticks \<open>\<ge> lim\<close> for an ask).
\<close>

definition visible_depth :: "order_book \<Rightarrow> side \<Rightarrow> int \<Rightarrow> int" where
  "visible_depth st taker_side lim =
     (if taker_side = Bid
      then sum_list (map (getVolumeAtPrice st Ask) (filter (\<lambda>p. p \<le> lim) (prices (asks st))))
      else sum_list (map (getVolumeAtPrice st Bid) (filter (\<lambda>p. p \<ge> lim) (prices (bids st)))))"

subsection \<open>A sample book\<close>

text \<open>
  Asks: at 101 a plain order of 5 (owner 1) and the visible clip of 5 of an iceberg
  (owner 2, display 5, 7 still hidden), at 103 a plain order of 5. Bids: 5 at 99 and 5 at 98.
\<close>

definition demo_asks :: book_side where
  "demo_asks =
     \<lparr>priceMap = [101 \<mapsto> \<lparr>lv_price = 101,
                            queue = [\<lparr>idNum = 3, tid = 1, price = 101, qty = 5, timestamp = 2, ref = 2\<rparr>,
                                     \<lparr>idNum = 4, tid = 2, price = 101, qty = 5, timestamp = 3, ref = 3\<rparr>],
                            volume = 10\<rparr>,
                  103 \<mapsto> \<lparr>lv_price = 103,
                            queue = [\<lparr>idNum = 5, tid = 3, price = 103, qty = 5, timestamp = 4, ref = 4\<rparr>],
                            volume = 5\<rparr>],
      prices = [101, 103],
      orderMap = [3 \<mapsto> \<lparr>idNum = 3, tid = 1, price = 101, qty = 5, timestamp = 2, ref = 2\<rparr>,
                  4 \<mapsto> \<lparr>idNum = 4, tid = 2, price = 101, qty = 5, timestamp = 3, ref = 3\<rparr>,
                  5 \<mapsto> \<lparr>idNum = 5, tid = 3, price = 103, qty = 5, timestamp = 4, ref = 4\<rparr>],
      nOrders = 3\<rparr>"

definition demo_bids :: book_side where
  "demo_bids =
     \<lparr>priceMap = [99 \<mapsto> \<lparr>lv_price = 99,
                           queue = [\<lparr>idNum = 1, tid = 10, price = 99, qty = 5, timestamp = 0, ref = 0\<rparr>],
                           volume = 5\<rparr>,
                  98 \<mapsto> \<lparr>lv_price = 98,
                           queue = [\<lparr>idNum = 2, tid = 11, price = 98, qty = 5, timestamp = 1, ref = 1\<rparr>],
                           volume = 5\<rparr>],
      prices = [98, 99],
      orderMap = [1 \<mapsto> \<lparr>idNum = 1, tid = 10, price = 99, qty = 5, timestamp = 0, ref = 0\<rparr>,
                  2 \<mapsto> \<lparr>idNum = 2, tid = 11, price = 98, qty = 5, timestamp = 1, ref = 1\<rparr>],
      nOrders = 2\<rparr>"

definition demo_book :: order_book where
  "demo_book =
     \<lparr>tape = [], bids = demo_bids, asks = demo_asks, time = 5, nextQuoteID = 6,
      icebergs = [4 \<mapsto> \<lparr>ib_price = 101, display = 5, remaining = 7, ib_tid = 2\<rparr>],
      nextRef = 5\<rparr>"

text \<open>A plain GTC limit quote, and a market quote, with the optional keys absent.\<close>

definition limit_quote :: "side \<Rightarrow> int \<Rightarrow> int \<Rightarrow> int \<Rightarrow> quote" where
  "limit_quote s q p t =
     \<lparr>q_type = Limit, q_side = s, q_qty = q, q_price = Some p, q_tid = t, q_tif = GTC,
      post_only = False, po_mode = Reject, iceberg_total = None, iceberg_display = None,
      q_idNum = None, q_timestamp = None\<rparr>"

definition market_quote :: "side \<Rightarrow> int \<Rightarrow> int \<Rightarrow> quote" where
  "market_quote s q t =
     \<lparr>q_type = Market, q_side = s, q_qty = q, q_price = None, q_tid = t, q_tif = GTC,
      post_only = False, po_mode = Reject, iceberg_total = None, iceberg_display = None,
      q_idNum = None, q_timestamp = None\<rparr>"

text \<open>
  The clock and id bookkeeping at the head of \<open>processOrder\<close>: the clock advances by one,
  and the id counter by one when the quote carries no id.
\<close>

definition counters_advanced :: "order_book \<Rightarrow> quote \<Rightarrow> order_book" where
  "counters_advanced st qt =
     (case q_idNum qt of
        None \<Rightarrow> st\<lparr>time := time st + 1, nextQuoteID := nextQuoteID st + 1\<rparr>
      | Some j \<Rightarrow> st\<lparr>time := time st + 1\<rparr>)"

text \<open>
  The calls \<open>self.bids.remove_by_id(i)\<close> and \<open>self.asks.remove_by_id(i)\<close> seen on the
  whole order book: the removed order and the order book after the call.
\<close>

definition side_remove_by_id :: "order_book \<Rightarrow> side \<Rightarrow> int \<Rightarrow> error + (order \<times> order_book)" where
  "side_remove_by_id st s i =
     (case remove_by_id (tree st s) i of
        Inl e \<Rightarrow> Inl e
      | Inr (ord, bs') \<Rightarrow> Inr (ord, set_tree st s bs'))"

text \<open>The side an order of side \<open>s\<close> trades against, and that side's best tick.\<close>

definition opposite :: "side \<Rightarrow> side" where
  "opposite s = (if s = Bid then Ask else Bid)"

definition best_opposite :: "order_book \<Rightarrow> side \<Rightarrow> int option" where
  "best_opposite st s = (if s = Bid then getBestAsk st else getBestBid st)"

text \<open>The test that ends the crossing of a limit order: the best opposite tick is beyond the limit.\<close>

definition out_of_limit :: "side \<Rightarrow> int \<Rightarrow> int \<Rightarrow> bool" where
  "out_of_limit s lim b = (if s = Bid then lim < b else b < lim)"

text \<open>
  The iceberg fields of a quote as the interface wants them: absent, or a display size
  that is positive and not above the total.
\<close>

definition iceberg_fields_ok :: "quote \<Rightarrow> bool" where
  "iceberg_fields_ok qt \<longleftrightarrow>
     (case (iceberg_total qt, iceberg_display qt) of
        (Some t, Some d) \<Rightarrow> 0 < d \<and> d \<le> t
      | _ \<Rightarrow> True)"

text \<open>
  The invariant of the specification's data model for one side: no level of the tick
  index has an empty queue, and each level's volume is the sum of its orders' quantities.
\<close>

definition levels_consistent :: "book_side \<Rightarrow> bool" where
  "levels_consistent bs \<longleftrightarrow>
     (\<forall>p lvl. priceMap bs p = Some lvl \<longrightarrow>
        queue lvl \<noteq> [] \<and> volume lvl = sum_list (map qty (queue lvl)))"

text \<open>The quantity and price of a tape record, as an element of a returned trade list.\<close>

definition trade_of :: "tape_entry \<Rightarrow> trade" where
  "trade_of e = \<lparr>t_qty = tp_qty e, t_price = tp_price e\<rparr>"

text \<open>
  \<open>st'\<close> extends the tape of \<open>st\<close> by records taken by owner \<open>t\<close>, and \<open>tr'\<close> extends
  \<open>tr\<close> by their quantities and prices, in the same order.
\<close>

definition trades_on_tape :: "int \<Rightarrow> order_book \<Rightarrow> trade list \<Rightarrow> order_book \<Rightarrow> trade list \<Rightarrow> bool" where
  "trades_on_tape t st tr st' tr' \<longleftrightarrow>
     (\<exists>es. tape st' = tape st @ es \<and> tr' = tr @ map trade_of es \<and>
           (\<forall>e \<in> set es. taker_tid e = t))"

text \<open>The queue resting at a tick of a side; empty when the side has no level there.\<close>

definition queue_at :: "book_side \<Rightarrow> int \<Rightarrow> order list" where
  "queue_at bs p = (case priceMap bs p of None \<Rightarrow> [] | Some lvl \<Rightarrow> queue lvl)"

text \<open>No level of the side is at a tick better than \<open>p\<close>: lower for asks, higher for bids.\<close>

definition no_better :: "side \<Rightarrow> book_side \<Rightarrow> int \<Rightarrow> bool" where
  "no_better s bs p \<longleftrightarrow> (\<forall>t \<in> dom (priceMap bs). if s = Ask then p \<le> t else t \<le> p)"

text \<open>
  The registry agrees with the book: an entry keyed by the id of a resting order carries
  that order's tick and owner. The ids of resting orders and the keys of the registry
  are below the id counter.
\<close>

definition registry_consistent :: "order_book \<Rightarrow> bool" where
  "registry_consistent st \<longleftrightarrow>
     (\<forall>s p ord info. ord \<in> set (queue_at (tree st s) p) \<and> icebergs st (idNum ord) = Some info \<longrightarrow>
        ib_price info = p \<and> ib_tid info = tid ord)"

definition ids_fresh :: "order_book \<Rightarrow> bool" where
  "ids_fresh st \<longleftrightarrow>
     (\<forall>s p ord. ord \<in> set (queue_at (tree st s) p) \<longrightarrow> idNum ord < nextQuoteID st) \<and>
     (\<forall>i \<in> dom (icebergs st). i < nextQuoteID st)"

text \<open>
  One fill in price-time priority on side \<open>s\<close> by taker \<open>t\<close>: the level at the best tick of
  the side gives up quantity from the order at the head of its queue, the tape gets the
  record of it, every other resting order stays where it is in its queue, and the only
  order that may arrive is the replenishment of the consumed order, at the tail of the
  same level and for the same owner.
\<close>

definition fill_step :: "side \<Rightarrow> int \<Rightarrow> order_book \<Rightarrow> order_book \<Rightarrow> bool" where
  "fill_step s t st st' \<longleftrightarrow>
     (\<exists>p h rest taken arrival.
        queue_at (tree st s) p = h # rest \<and> no_better s (tree st s) p \<and>
        0 < taken \<and> taken \<le> qty h \<and>
        tape st' = tape st @ [\<lparr>tp_qty = taken, tp_price = p, taker_tid = t, maker_tid = tid h\<rparr>] \<and>
        (\<forall>p'. p' \<noteq> p \<longrightarrow> queue_at (tree st' s) p' = queue_at (tree st s) p') \<and>
        queue_at (tree st' s) p =
          (if taken < qty h then [h\<lparr>qty := qty h - taken\<rparr>] else []) @ rest @ arrival \<and>
        (arrival = [] \<or>
         taken = qty h \<and> (\<exists>ord. arrival = [ord] \<and> tid ord = tid h \<and> price ord = p \<and> 0 < qty ord)))"

text \<open>
  An iceberg bid of 12 at 101 (display 5, total 12), and the book holding a single ask of
  4 at 101 that it meets.
\<close>

definition iceberg_bid :: quote where
  "iceberg_bid = (limit_quote Bid 12 101 2)\<lparr>iceberg_total := Some 12, iceberg_display := Some 5\<rparr>"

definition one_ask_book :: "order_book option" where
  "one_ask_book = map_option snd (processOrder new_book (limit_quote Ask 4 101 1))"



text \<open>
  The conditions under which the level invariant is kept. They are those of a well-formed
  side, with the quantities of the resting orders only required to be different from
  zero, and the display sizes of the registry likewise.
\<close>

definition level_nz :: "int \<Rightarrow> price_level \<Rightarrow> bool" where
  "level_nz p lvl \<longleftrightarrow>
     lv_price lvl = p \<and> queue lvl \<noteq> [] \<and> volume lvl = sum_list (map qty (queue lvl)) \<and>
     (\<forall>ord \<in> set (queue lvl). qty ord \<noteq> 0)"

definition side_nz :: "book_side \<Rightarrow> bool" where
  "side_nz bs \<longleftrightarrow>
     sorted (prices bs) \<and> distinct (prices bs) \<and> set (prices bs) = dom (priceMap bs) \<and>
     (\<forall>p lvl. priceMap bs p = Some lvl \<longrightarrow> level_nz p lvl)"

definition registry_nz :: "(int \<rightharpoonup> iceberg_info) \<Rightarrow> bool" where
  "registry_nz reg \<longleftrightarrow> (\<forall>i info. reg i = Some info \<longrightarrow> display info \<noteq> 0)"

definition book_nz :: "order_book \<Rightarrow> bool" where
  "book_nz st \<longleftrightarrow> side_nz (bids st) \<and> side_nz (asks st) \<and> registry_nz (icebergs st)"

text \<open>
  The iceberg fields of a quote are absent, or the smaller of display size and total is
  not zero: the first clip \<open>min(display, total, residual)\<close> of a positive residual is
  then not zero either.
\<close>

definition iceberg_clip_nz :: "quote \<Rightarrow> bool" where
  "iceberg_clip_nz qt \<longleftrightarrow>
     (case (iceberg_total qt, iceberg_display qt) of
        (Some t, Some d) \<Rightarrow> min d t \<noteq> 0
      | _ \<Rightarrow> True)"

text \<open>
  An iceberg bid of 5 at 101 with display size 0 (total 5), the book that an empty book
  becomes when it is submitted, and that book after \<open>_process_price_level\<close> has run on
  the bid level at 101 for a market sell order of 5.
\<close>

definition zero_display_bid :: quote where
  "zero_display_bid = (limit_quote Bid 5 101 2)\<lparr>iceberg_total := Some 5, iceberg_display := Some 0\<rparr>"

definition zero_clip_book :: "order_book option" where
  "zero_clip_book = map_option snd (processOrder new_book zero_display_bid)"

definition after_zero_take :: "order_book option" where
  "after_zero_take =
     Option.bind zero_clip_book
       (\<lambda>st. map_option (snd \<circ> snd) (process_price_level st Bid 101 5 (market_quote Ask 5 9) []))"

section \<open>Properties\<close>

subsection \<open>The sample book is well formed\<close>

lemma demo_asks_ok: "side_ok demo_asks"
  by (auto simp: side_ok_def demo_asks_def level_ok_def)

lemma demo_bids_ok: "side_ok demo_bids"
  by (auto simp: side_ok_def demo_bids_def level_ok_def)

lemma demo_book_ok: "book_ok demo_book"
  by (simp add: book_ok_def demo_book_def demo_asks_ok demo_bids_ok registry_ok_def)

subsection \<open>The FOK depth scan\<close>

lemma depth_le_sorted:
  "sorted ps \<Longrightarrow> set ps \<subseteq> dom pm \<Longrightarrow>
   depth_le pm lim ps acc =
     Inr (acc + sum_list (map (\<lambda>p. case pm p of None \<Rightarrow> 0 | Some lvl \<Rightarrow> volume lvl)
                           (filter (\<lambda>p. p \<le> lim) ps)))"
proof (induction ps arbitrary: acc)
  case Nil
  then show ?case by simp
next
  case (Cons p ps)
  show ?case
  proof (cases "p \<le> lim")
    case True
    with Cons show ?thesis by (auto simp: algebra_simps)
  next
    case False
    with Cons.prems have "filter (\<lambda>q. q \<le> lim) ps = []"
      by (auto simp: filter_empty_conv)
    with False show ?thesis by simp
  qed
qed

lemma depth_ge_sorted:
  "sorted (rev ps) \<Longrightarrow> set ps \<subseteq> dom pm \<Longrightarrow>
   depth_ge pm lim ps acc =
     Inr (acc + sum_list (map (\<lambda>p. case pm p of None \<Rightarrow> 0 | Some lvl \<Rightarrow> volume lvl)
                           (filter (\<lambda>p. p \<ge> lim) ps)))"
proof (induction ps arbitrary: acc)
  case Nil
  then show ?case by simp
next
  case (Cons p ps)
  from Cons.prems have s: "sorted (rev ps)" and le: "\<forall>q \<in> set ps. q \<le> p"
    by (auto simp: sorted_append)
  show ?case
  proof (cases "p \<ge> lim")
    case True
    with Cons s show ?thesis by (auto simp: algebra_simps)
  next
    case False
    with le have "filter (\<lambda>q. q \<ge> lim) ps = []"
      by (auto simp: filter_empty_conv)
    with False show ?thesis by simp
  qed
qed

lemma sum_depth_fok_visible:
  assumes "side_ok (asks st)" "side_ok (bids st)"
  shows "sum_depth_fok st sd lim = Inr (visible_depth st sd lim)"
proof (cases "sd = Bid")
  case True
  from assms(1) have "sorted (prices (asks st))"
    "set (prices (asks st)) \<subseteq> dom (priceMap (asks st))"
    by (auto simp: side_ok_def)
  from depth_le_sorted[OF this, of lim 0] True show ?thesis
    by (simp add: sum_depth_fok_def visible_depth_def getVolumeAtPrice_def[abs_def] tree_def)
next
  case False
  from assms(2) have "sorted (rev (rev (prices (bids st))))"
    "set (rev (prices (bids st))) \<subseteq> dom (priceMap (bids st))"
    by (auto simp: side_ok_def)
  from depth_ge_sorted[OF this, of lim 0] False show ?thesis
    by (simp add: sum_depth_fok_def visible_depth_def getVolumeAtPrice_def[abs_def] tree_def
        rev_filter[symmetric] rev_map[symmetric])
qed

lemma sum_depth_fok_sides:
  "asks st' = asks st \<Longrightarrow> bids st' = bids st \<Longrightarrow>
   sum_depth_fok st' sd lim = sum_depth_fok st sd lim"
  by (simp add: sum_depth_fok_def)

lemma visible_depth_sides:
  "asks st' = asks st \<Longrightarrow> bids st' = bids st \<Longrightarrow>
   visible_depth st' sd lim = visible_depth st sd lim"
  by (simp add: visible_depth_def getVolumeAtPrice_def[abs_def] tree_def)

text \<open>The state in which \<open>processOrder\<close> hands a quote to its handler.\<close>

lemma processOrder_limit:
  "q_type qt = Limit \<Longrightarrow> q_price qt = Some lim \<Longrightarrow>
   processOrder st qt =
     process_limit
       (case q_idNum qt of
          None \<Rightarrow> st\<lparr>time := time st + 1, nextQuoteID := nextQuoteID st + 1\<rparr>
        | Some j \<Rightarrow> st\<lparr>time := time st + 1\<rparr>)
       (qt\<lparr>q_timestamp := Some (case q_timestamp qt of None \<Rightarrow> time st | Some t \<Rightarrow> t),
           q_idNum := Some (case q_idNum qt of None \<Rightarrow> nextQuoteID st | Some j \<Rightarrow> j)\<rparr>)"
  by (simp add: processOrder_def Let_def split: option.splits)

lemma fok_short_rejected:
  assumes "q_type qt = Limit" "q_tif qt = FOK" "q_price qt = Some lim"
    and "side_ok (asks st)" "side_ok (bids st)"
    and "visible_depth st (q_side qt) lim < q_qty qt"
  shows "processOrder st qt =
           Some (Inr ([], None),
                 (case q_idNum qt of
                    None \<Rightarrow> st\<lparr>time := time st + 1, nextQuoteID := nextQuoteID st + 1\<rparr>
                  | Some j \<Rightarrow> st\<lparr>time := time st + 1\<rparr>))"
proof -
  let ?st2 = "case q_idNum qt of
                None \<Rightarrow> st\<lparr>time := time st + 1, nextQuoteID := nextQuoteID st + 1\<rparr>
              | Some j \<Rightarrow> st\<lparr>time := time st + 1\<rparr>"
  have same: "asks ?st2 = asks st" "bids ?st2 = bids st"
    by (auto split: option.splits)
  have "sum_depth_fok ?st2 (q_side qt) lim = Inr (visible_depth st (q_side qt) lim)"
    using sum_depth_fok_sides[OF same] sum_depth_fok_visible[OF assms(4,5)] by simp
  then show ?thesis
    using assms(1,2,3,6) by (simp add: processOrder_limit process_limit_def)
qed

subsection \<open>Claims\<close>

text \<open>
  C9. \<open>consume_head(need)\<close> on an empty level or with \<open>need \<le> 0\<close> takes nothing, removes
  nothing and leaves the level as it is. Otherwise it takes \<open>min(need, head.qty)\<close> from the
  head order, lowers the level's volume by the same amount, and removes and returns the
  head order exactly when its quantity has reached zero; the quantity taken is returned.
\<close>

theorem consume_head_spec:
  "(queue lvl = [] \<or> need \<le> 0 \<longrightarrow> consume_head lvl need = (0, None, lvl)) \<and>
   (\<forall>h rest. queue lvl = h # rest \<and> 0 < need \<longrightarrow>
      (case consume_head lvl need of (taken, removed, lvl') \<Rightarrow>
         taken = min need (qty h) \<and>
         volume lvl' = volume lvl - taken \<and>
         lv_price lvl' = lv_price lvl \<and>
         (if qty h - taken = 0
          then removed = Some (h\<lparr>qty := 0\<rparr>) \<and> queue lvl' = rest
          else removed = None \<and> queue lvl' = h\<lparr>qty := qty h - taken\<rparr> # rest)))"
  by (auto simp: consume_head_def Let_def split: list.splits)

theorem consume_head_spec_witness:
  "consume_head (new_level 101) 4 = (0, None, new_level 101) \<and>
   consume_head
     \<lparr>lv_price = 101,
      queue = [\<lparr>idNum = 3, tid = 1, price = 101, qty = 5, timestamp = 2, ref = 2\<rparr>,
               \<lparr>idNum = 4, tid = 2, price = 101, qty = 5, timestamp = 3, ref = 3\<rparr>],
      volume = 10\<rparr> 7 =
     (5, Some \<lparr>idNum = 3, tid = 1, price = 101, qty = 0, timestamp = 2, ref = 2\<rparr>,
      \<lparr>lv_price = 101,
       queue = [\<lparr>idNum = 4, tid = 2, price = 101, qty = 5, timestamp = 3, ref = 3\<rparr>],
       volume = 5\<rparr>)"
proof -
  let ?h = "\<lparr>idNum = 3, tid = 1, price = 101, qty = 5, timestamp = 2, ref = 2\<rparr>"
  let ?r = "[\<lparr>idNum = 4, tid = 2, price = 101, qty = 5, timestamp = 3, ref = 3\<rparr>]"
  let ?lvl = "\<lparr>lv_price = 101, queue = ?h # ?r, volume = 10\<rparr>"
  have a: "consume_head (new_level 101) 4 = (0, None, new_level 101)"
    using consume_head_spec[of "new_level 101" 4] by (simp add: new_level_def)
  have "case consume_head ?lvl 7 of (taken, removed, lvl') \<Rightarrow>
         taken = min 7 (qty ?h) \<and>
         volume lvl' = volume ?lvl - taken \<and>
         lv_price lvl' = lv_price ?lvl \<and>
         (if qty ?h - taken = 0
          then removed = Some (?h\<lparr>qty := 0\<rparr>) \<and> queue lvl' = ?r
          else removed = None \<and> queue lvl' = ?h\<lparr>qty := qty ?h - taken\<rparr> # ?r)"
    using consume_head_spec[of ?lvl 7] by simp
  then have b: "consume_head ?lvl 7 = (5, Some (?h\<lparr>qty := 0\<rparr>), \<lparr>lv_price = 101, queue = ?r, volume = 5\<rparr>)"
    by (cases "consume_head ?lvl 7") auto
  from a b show ?thesis by simp
qed

text \<open>
  C1. A FOK limit order on a well-formed book whose quantity exceeds the opposite side's
  visible depth at ticks at or better than its limit returns an empty trade list and no
  resting order, and book sides, tape and iceberg registry are as before the call.
\<close>

theorem fok_reject_atomic:
  assumes "q_type qt = Limit" "q_tif qt = FOK" "q_price qt = Some lim"
    and "side_ok (asks st)" "side_ok (bids st)"
    and "visible_depth st (q_side qt) lim < q_qty qt"
  shows "\<exists>st'. processOrder st qt = Some (Inr ([], None), st') \<and>
           bids st' = bids st \<and> asks st' = asks st \<and> tape st' = tape st \<and>
           icebergs st' = icebergs st"
  unfolding fok_short_rejected[OF assms] by (auto split: option.splits)

theorem fok_reject_atomic_witness:
  "visible_depth demo_book Bid 101 < 20 \<and>
   (\<exists>st'. processOrder demo_book ((limit_quote Bid 20 101 7)\<lparr>q_tif := FOK\<rparr>) =
             Some (Inr ([], None), st') \<and>
           bids st' = bids demo_book \<and> asks st' = asks demo_book \<and>
           tape st' = tape demo_book \<and> icebergs st' = icebergs demo_book)"
proof -
  have d: "visible_depth demo_book Bid 101 = 10"
    by (simp add: visible_depth_def demo_book_def demo_asks_def getVolumeAtPrice_def tree_def)
  have ok: "side_ok (asks demo_book)" "side_ok (bids demo_book)"
    by (simp_all add: demo_book_def demo_asks_ok demo_bids_ok)
  show ?thesis
    using fok_reject_atomic[of "(limit_quote Bid 20 101 7)\<lparr>q_tif := FOK\<rparr>" 101 demo_book] d ok
    by (simp add: limit_quote_def)
qed

text \<open>
  C10. On a well-formed book the depth computed by the FOK pre-check is the sum of the
  volumes of the opposite side's levels at ticks at or better than the limit. It does not
  read the iceberg registry, so a FOK order larger than that visible depth is rejected
  whatever quantity the registry holds in reserve.
\<close>

theorem fok_depth_visible_only:
  assumes "side_ok (asks st)" "side_ok (bids st)"
  shows "sum_depth_fok (st\<lparr>icebergs := reg\<rparr>) sd lim = Inr (visible_depth st sd lim) \<and>
         (\<forall>qt. q_type qt = Limit \<and> q_tif qt = FOK \<and> q_price qt = Some lim \<and>
               visible_depth st (q_side qt) lim < q_qty qt \<longrightarrow>
               map_option fst (processOrder (st\<lparr>icebergs := reg\<rparr>) qt) = Some (Inr ([], None)))"
proof -
  let ?st = "st\<lparr>icebergs := reg\<rparr>"
  have ok: "side_ok (asks ?st)" "side_ok (bids ?st)"
    using assms by simp_all
  have vd: "visible_depth ?st s l = visible_depth st s l" for s l
    by (rule visible_depth_sides) simp_all
  have "sum_depth_fok ?st sd lim = Inr (visible_depth st sd lim)"
    using sum_depth_fok_visible[OF ok] vd by simp
  moreover have "map_option fst (processOrder ?st qt) = Some (Inr ([], None))"
    if "q_type qt = Limit" "q_tif qt = FOK" "q_price qt = Some lim"
      "visible_depth st (q_side qt) lim < q_qty qt" for qt
  proof -
    from that(4) have "visible_depth ?st (q_side qt) lim < q_qty qt"
      by (simp add: vd)
    from fok_short_rejected[OF that(1,2,3) ok this] show ?thesis by simp
  qed
  ultimately show ?thesis by blast
qed

theorem fok_depth_visible_only_witness:
  "sum_depth_fok demo_book Bid 101 = Inr 10 \<and>
   map_option remaining (icebergs demo_book 4) = Some 7 \<and>
   map_option fst (processOrder demo_book ((limit_quote Bid 12 101 7)\<lparr>q_tif := FOK\<rparr>)) =
     Some (Inr ([], None))"
proof -
  have d: "visible_depth demo_book Bid 101 = 10"
    by (simp add: visible_depth_def demo_book_def demo_asks_def getVolumeAtPrice_def tree_def)
  have ok: "side_ok (asks demo_book)" "side_ok (bids demo_book)"
    by (simp_all add: demo_book_def demo_asks_ok demo_bids_ok)
  have e: "demo_book\<lparr>icebergs := icebergs demo_book\<rparr> = demo_book"
    by simp
  have r: "map_option remaining (icebergs demo_book 4) = Some 7"
    by (simp add: demo_book_def)
  from fok_depth_visible_only[OF ok, of "icebergs demo_book" Bid 101] d r show ?thesis
    unfolding e by (simp add: limit_quote_def)
qed

subsection \<open>Loops that do not run\<close>

lemma limit_loop_stop:
  "qtyToTrade \<le> 0 \<or> \<not> is_marketable st sd price_ip \<Longrightarrow>
   limit_loop st sd price_ip qtyToTrade qt trades = Some (Inr (qtyToTrade, trades), st)"
  by (subst limit_loop.simps, cases sd)
     (auto simp: is_marketable_def split: option.splits)

lemma market_loop_stop:
  "qtyToTrade \<le> 0 \<Longrightarrow>
   market_loop st sd qtyToTrade qt trades = Some (Inr (qtyToTrade, trades), st)"
  by (subst market_loop.simps) simp



lemma counters_advanced_fields [simp]:
  "asks (counters_advanced st qt) = asks st"
  "bids (counters_advanced st qt) = bids st"
  "tape (counters_advanced st qt) = tape st"
  "icebergs (counters_advanced st qt) = icebergs st"
  "time (counters_advanced st qt) = time st + 1"
  by (simp_all add: counters_advanced_def split: option.splits)

lemma processOrder_limit':
  "q_type qt = Limit \<Longrightarrow> q_price qt = Some lim \<Longrightarrow>
   processOrder st qt =
     process_limit (counters_advanced st qt)
       (qt\<lparr>q_timestamp := Some (case q_timestamp qt of None \<Rightarrow> time st | Some t \<Rightarrow> t),
           q_idNum := Some (case q_idNum qt of None \<Rightarrow> nextQuoteID st | Some j \<Rightarrow> j)\<rparr>)"
  by (simp add: processOrder_limit counters_advanced_def)

lemma processOrder_market:
  "q_type qt = Market \<Longrightarrow>
   processOrder st qt =
     (case process_market (counters_advanced st qt)
        (qt\<lparr>q_timestamp := Some (case q_timestamp qt of None \<Rightarrow> time st | Some t \<Rightarrow> t),
            q_idNum := Some (case q_idNum qt of None \<Rightarrow> nextQuoteID st | Some j \<Rightarrow> j)\<rparr>) of
        None \<Rightarrow> None
      | Some (Inl e, st') \<Rightarrow> Some (Inl e, st')
      | Some (Inr trades, st') \<Rightarrow> Some (Inr (trades, None), st'))"
  by (simp add: processOrder_def counters_advanced_def Let_def split: option.splits)

text \<open>
  C2, as the claim states it, fails: a limit bid of quantity 0 on the empty book raises
  nothing. The call returns an empty trade list and no resting order, and the clock and
  the id counter have advanced.
\<close>

theorem invalid_request_counterexample:
  "processOrder new_book (limit_quote Bid 0 100 7) =
     Some (Inr ([], None), new_book\<lparr>time := 1, nextQuoteID := 2\<rparr>) \<and>
   time (new_book\<lparr>time := 1, nextQuoteID := 2\<rparr>) \<noteq> time new_book"
proof -
  have "processOrder new_book (limit_quote Bid 0 100 7) =
          Some (Inr ([], None), counters_advanced new_book (limit_quote Bid 0 100 7))"
    by (simp add: processOrder_limit' process_limit_def post_only_guard_def limit_loop_stop
        rest_order_def limit_quote_def)
  then show ?thesis
    by (simp add: counters_advanced_def limit_quote_def new_book_def)
qed

text \<open>
  C2, amended. The engine validates nothing and never raises \<open>InvalidRequest\<close>. On a
  well-formed book a submission with non-positive quantity (a market order, or a limit
  order with a price) returns an empty trade list and no resting order; a limit order
  without a price raises \<open>KeyError\<close>. In both cases book sides, tape and registry are
  unchanged, the clock has advanced by one, and so has the id counter when the quote
  carried no id.
\<close>

theorem nonpositive_qty_or_missing_price:
  assumes "side_ok (asks st)" "side_ok (bids st)"
  shows "(q_qty qt \<le> 0 \<and> (q_type qt = Market \<or> q_price qt \<noteq> None) \<longrightarrow>
            processOrder st qt = Some (Inr ([], None), counters_advanced st qt)) \<and>
         (q_type qt = Limit \<and> q_price qt = None \<longrightarrow>
            processOrder st qt = Some (Inl KeyError, counters_advanced st qt))"
proof (intro conjI impI)
  assume a: "q_qty qt \<le> 0 \<and> (q_type qt = Market \<or> q_price qt \<noteq> None)"
  let ?st2 = "counters_advanced st qt"
  show "processOrder st qt = Some (Inr ([], None), ?st2)"
  proof (cases "q_type qt")
    case Market
    with a show ?thesis
      by (simp add: processOrder_market process_market_def market_loop_stop)
  next
    case Limit
    with a obtain lim where lim: "q_price qt = Some lim" by auto
    have ok: "side_ok (asks ?st2)" "side_ok (bids ?st2)"
      using assms by simp_all
    have d: "sum_depth_fok ?st2 (q_side qt) lim = Inr (visible_depth ?st2 (q_side qt) lim)"
      by (rule sum_depth_fok_visible[OF ok])
    from a Limit lim d show ?thesis
      by (simp add: processOrder_limit' process_limit_def limit_loop_stop rest_order_def
          split: option.splits)
  qed
next
  assume "q_type qt = Limit \<and> q_price qt = None"
  then show "processOrder st qt = Some (Inl KeyError, counters_advanced st qt)"
    by (simp add: processOrder_def counters_advanced_def Let_def split: option.splits)
qed

theorem nonpositive_qty_or_missing_price_witness:
  "processOrder demo_book (market_quote Ask (- 3) 7) =
     Some (Inr ([], None), demo_book\<lparr>time := 6, nextQuoteID := 7\<rparr>) \<and>
   processOrder demo_book ((limit_quote Bid 4 0 7)\<lparr>q_price := None\<rparr>) =
     Some (Inl KeyError, demo_book\<lparr>time := 6, nextQuoteID := 7\<rparr>)"
proof -
  have ok: "side_ok (asks demo_book)" "side_ok (bids demo_book)"
    by (simp_all add: demo_book_def demo_asks_ok demo_bids_ok)
  have c: "counters_advanced demo_book (market_quote Ask (- 3) 7) = demo_book\<lparr>time := 6, nextQuoteID := 7\<rparr>"
    "counters_advanced demo_book ((limit_quote Bid 4 0 7)\<lparr>q_price := None\<rparr>) = demo_book\<lparr>time := 6, nextQuoteID := 7\<rparr>"
    by (simp_all add: counters_advanced_def market_quote_def limit_quote_def demo_book_def)
  from nonpositive_qty_or_missing_price[OF ok, of "market_quote Ask (- 3) 7"]
    nonpositive_qty_or_missing_price[OF ok, of "(limit_quote Bid 4 0 7)\<lparr>q_price := None\<rparr>"]
  show ?thesis
    unfolding c by (simp add: market_quote_def limit_quote_def)
qed

subsection \<open>Removal by id\<close>

lemma side_remove_by_id_Inr:
  "side_remove_by_id st s i = Inr (ord, st') \<Longrightarrow>
   \<exists>bs'. remove_by_id (tree st s) i = Inr (ord, bs') \<and> st' = set_tree st s bs'"
  by (auto simp: side_remove_by_id_def split: sum.splits)

lemma prune_if_empty_orderMap [simp]: "orderMap (prune_if_empty bs p) = orderMap bs"
  by (simp add: prune_if_empty_def split: option.splits)

lemma remove_by_id_orderMap:
  "remove_by_id bs i = Inr (ord, bs') \<Longrightarrow>
   orderMap bs i = Some ord \<and> orderMap bs' = (orderMap bs)(i := None)"
  unfolding remove_by_id_def Let_def
  by (auto split: option.splits prod.splits)

text \<open>
  C3, as the claim states it, fails: in the sample book the order with id 4 is the visible
  clip of an iceberg with 7 still hidden. After \<open>remove_by_id(4)\<close> on the ask side the id is
  no longer resting, and the registry entry keyed by 4 is still there.
\<close>

theorem cancel_keeps_registry_counterexample:
  "map_sum id (\<lambda>(ord, st'). (orderMap (asks st') 4, map_option remaining (icebergs st' 4)))
     (side_remove_by_id demo_book Ask 4) = Inr (None, Some 7)"
  by code_simp

text \<open>
  C3, amended. Removal by id is an operation of one book side and does not reach the
  iceberg registry: when it succeeds it returns the order the id index held, the id is no
  longer in that side's id index, and the iceberg registry, the tape and the other side
  are exactly as before, so that a registry entry keyed by the cancelled id stays until
  its owner deletes it. For an id that is not resting it raises \<open>KeyError\<close>.
\<close>

theorem remove_by_id_leaves_registry:
  "(orderMap (tree st s) i = None \<longrightarrow> side_remove_by_id st s i = Inl KeyError) \<and>
   (\<forall>ord st'. side_remove_by_id st s i = Inr (ord, st') \<longrightarrow>
      orderMap (tree st s) i = Some ord \<and>
      orderMap (tree st' s) i = None \<and>
      icebergs st' = icebergs st \<and> tape st' = tape st \<and>
      tree st' (if s = Bid then Ask else Bid) = tree st (if s = Bid then Ask else Bid))"
proof (intro conjI impI allI)
  assume "orderMap (tree st s) i = None"
  then show "side_remove_by_id st s i = Inl KeyError"
    by (simp add: side_remove_by_id_def remove_by_id_def)
next
  fix ord st'
  assume "side_remove_by_id st s i = Inr (ord, st')"
  then obtain bs' where r: "remove_by_id (tree st s) i = Inr (ord, bs')"
    and st': "st' = set_tree st s bs'"
    by (auto dest: side_remove_by_id_Inr)
  from remove_by_id_orderMap[OF r] st'
  show "orderMap (tree st s) i = Some ord"
    and "orderMap (tree st' s) i = None"
    and "icebergs st' = icebergs st"
    and "tape st' = tape st"
    and "tree st' (if s = Bid then Ask else Bid) = tree st (if s = Bid then Ask else Bid)"
    by (auto simp: set_tree_def tree_def)
qed

theorem remove_by_id_leaves_registry_witness:
  "side_remove_by_id demo_book Ask 9 = Inl KeyError \<and>
   (\<exists>ord st'. side_remove_by_id demo_book Ask 4 = Inr (ord, st') \<and>
      orderMap (asks demo_book) 4 = Some ord \<and> orderMap (asks st') 4 = None \<and>
      icebergs st' = icebergs demo_book \<and> bids st' = bids demo_book)"
proof -
  have a: "orderMap (tree demo_book Ask) 9 = None"
    by (simp add: demo_book_def demo_asks_def tree_def)
  have "isl (side_remove_by_id demo_book Ask 4) = False"
    by code_simp
  then obtain ord st' where r: "side_remove_by_id demo_book Ask 4 = Inr (ord, st')"
    by (cases "side_remove_by_id demo_book Ask 4") auto
  have t: "tree x Ask = asks x" "tree x Bid = bids x" for x
    by (simp_all add: tree_def)
  from remove_by_id_leaves_registry[of demo_book Ask 9] a
  have "side_remove_by_id demo_book Ask 9 = Inl KeyError"
    by blast
  moreover from remove_by_id_leaves_registry[of demo_book Ask 4] r
  have "orderMap (asks demo_book) 4 = Some ord \<and> orderMap (asks st') 4 = None \<and>
        icebergs st' = icebergs demo_book \<and> bids st' = bids demo_book"
    by (auto simp: t)
  ultimately show ?thesis
    using r by blast
qed

subsection \<open>Post-Only repricing\<close>


lemma tree_set_tree [simp]:
  "tree (set_tree st s bs) s = bs"
  "s' \<noteq> s \<Longrightarrow> tree (set_tree st s bs) s' = tree st s'"
  "tape (set_tree st s bs) = tape st"
  "icebergs (set_tree st s bs) = icebergs st"
  "time (set_tree st s bs) = time st"
  "nextQuoteID (set_tree st s bs) = nextQuoteID st"
  "nextRef (set_tree st s bs) = nextRef st"
  by (cases s; cases s'; simp add: tree_def set_tree_def)+

lemma tree_other_fields [simp]:
  "tree (st\<lparr>icebergs := r\<rparr>) s = tree st s"
  "tree (st\<lparr>tape := tp\<rparr>) s = tree st s"
  "tree (st\<lparr>time := tm\<rparr>) s = tree st s"
  "tree (st\<lparr>nextQuoteID := n\<rparr>) s = tree st s"
  "tree (st\<lparr>nextRef := k\<rparr>) s = tree st s"
  by (simp_all add: tree_def)

lemma set_tree_nextRef [simp]:
  "set_tree (st\<lparr>nextRef := k\<rparr>) s bs = (set_tree st s bs)\<lparr>nextRef := k\<rparr>"
  by (simp add: set_tree_def)

lemma book_ok_nextRef [simp]: "book_ok (st\<lparr>nextRef := k\<rparr>) = book_ok st"
  by (simp add: book_ok_def)

lemma tree_counters_advanced [simp]:
  "tree (counters_advanced st qt) s = tree st s"
  by (simp add: tree_def)




subsection \<open>Reasoning about the loops\<close>

text \<open>
  An invariant of the loop of \<open>_process_price_level\<close>: what holds before the loop and is
  kept by every pass holds of what the loop returns.
\<close>

lemma process_price_level_invariant:
  assumes run: "process_price_level st bs p q tq tr = Some (q', tr', st')"
    and init: "I st q tr"
    and step: "\<And>st q tr leave q' tr' st'.
                 I st q tr \<Longrightarrow> level_cond st bs p q \<Longrightarrow>
                 level_iter st bs p q tq tr = (leave, q', tr', st') \<Longrightarrow> I st' q' tr'"
  shows "I st' q' tr'"
proof -
  define P where "P = (\<lambda>st0 bs0 p0 q0 tq0 tr0 r.
    bs0 = bs \<and> p0 = p \<and> tq0 = tq \<and> I st0 q0 tr0 \<longrightarrow>
    (case r of (q', tr', st') \<Rightarrow> I st' q' tr'))"
  have "P st bs p q tq tr (q', tr', st')"
  proof (rule process_price_level.raw_induct[where P = P, OF _ run])
    fix f st1 bs1 p1 q1 tq1 tr1 r1
    assume ih: "\<And>st2 bs2 p2 q2 tq2 tr2 r2. f st2 bs2 p2 q2 tq2 tr2 = Some r2 \<Longrightarrow> P st2 bs2 p2 q2 tq2 tr2 r2"
      and step2: "(if level_cond st1 bs1 p1 q1
          then case level_iter st1 bs1 p1 q1 tq1 tr1 of
               (leave, qty', trades', st') \<Rightarrow>
                 if leave then Some (qty', trades', st')
                 else f st' bs1 p1 qty' tq1 trades'
          else Some (q1, tr1, st1)) = Some r1"
    show "P st1 bs1 p1 q1 tq1 tr1 r1"
      unfolding P_def
    proof (intro impI, elim conjE)
      assume eq: "bs1 = bs" "p1 = p" "tq1 = tq" and i: "I st1 q1 tr1"
      show "case r1 of (q', tr', st') \<Rightarrow> I st' q' tr'"
      proof (cases "level_cond st1 bs p q1")
        case False
        with step2 eq i show ?thesis by auto
      next
        case True
        obtain lv q2 tr2 st2 where li: "level_iter st1 bs p q1 tq tr1 = (lv, q2, tr2, st2)"
          by (cases "level_iter st1 bs p q1 tq tr1") auto
        from step[OF i True li] have i2: "I st2 q2 tr2" .
        show ?thesis
        proof (cases lv)
          case True
          with step2 eq \<open>level_cond st1 bs p q1\<close> li i2 show ?thesis by auto
        next
          case False
          with step2 eq \<open>level_cond st1 bs p q1\<close> li
          have "f st2 bs p q2 tq tr2 = Some r1" by simp
          from ih[OF this] i2 show ?thesis by (simp add: P_def)
        qed
      qed
    qed
  qed
  with init show ?thesis by (simp add: P_def)
qed

text \<open>The two crossing loops in one shape, for either side.\<close>

lemma limit_loop_unfold:
  "limit_loop st sd lim q tq tr =
     (if 0 < q then
        (case best_opposite st sd of
           None \<Rightarrow> Some (Inr (q, tr), st)
         | Some b \<Rightarrow>
             if out_of_limit sd lim b then Some (Inr (q, tr), st)
             else
               (case priceMap (tree st (opposite sd)) b of
                  None \<Rightarrow> Some (Inl KeyError, st)
                | Some lvl \<Rightarrow>
                    Option.bind (process_price_level st (opposite sd) b q tq [])
                      (\<lambda>(q', nt, st'). limit_loop st' sd lim q' tq (tr @ nt))))
      else Some (Inr (q, tr), st))"
  by (subst limit_loop.simps, cases sd)
     (simp_all add: best_opposite_def opposite_def tree_def out_of_limit_def cong: option.case_cong if_cong)

lemma market_loop_unfold:
  "market_loop st sd q tq tr =
     (if 0 < q then
        (case best_opposite st sd of
           None \<Rightarrow> Some (Inr (q, tr), st)
         | Some b \<Rightarrow>
             (case priceMap (tree st (opposite sd)) b of
                None \<Rightarrow> Some (Inl KeyError, st)
              | Some lvl \<Rightarrow>
                  Option.bind (process_price_level st (opposite sd) b q tq [])
                    (\<lambda>(q', nt, st'). market_loop st' sd q' tq (tr @ nt))))
      else Some (Inr (q, tr), st))"
  by (subst market_loop.simps, cases sd)
     (simp_all add: best_opposite_def opposite_def tree_def out_of_limit_def cong: option.case_cong if_cong)

text \<open>
  Invariants of the crossing loops: kept by every call of \<open>_process_price_level\<close> on the
  best opposite level, they hold when the loop returns or raises.
\<close>

lemma limit_loop_invariant:
  assumes run: "limit_loop st sd lim q tq tr = Some (res, st')"
    and init: "I st q tr"
    and step: "\<And>st q tr b lvl q' nt st'.
                 I st q tr \<Longrightarrow> 0 < q \<Longrightarrow> best_opposite st sd = Some b \<Longrightarrow>
                 \<not> out_of_limit sd lim b \<Longrightarrow>
                 priceMap (tree st (opposite sd)) b = Some lvl \<Longrightarrow>
                 process_price_level st (opposite sd) b q tq [] = Some (q', nt, st') \<Longrightarrow>
                 I st' q' (tr @ nt)"
  shows "case res of Inl e \<Rightarrow> (\<exists>q' tr'. I st' q' tr') | Inr (q', tr') \<Rightarrow> I st' q' tr'"
proof -
  define P where "P = (\<lambda>st0 sd0 lim0 q0 tq0 tr0 r.
    sd0 = sd \<and> lim0 = lim \<and> tq0 = tq \<and> I st0 q0 tr0 \<longrightarrow>
        (case r of (res, st') \<Rightarrow>
           (case res of Inl (e::error) \<Rightarrow> (\<exists>q' tr'. I st' q' tr') | Inr (q', tr') \<Rightarrow> I st' q' tr')))"
  have "P st sd lim q tq tr (res, st')"
  proof (rule limit_loop.raw_induct[where P = P, OF _ run])
    fix f st1 sd1 lim1 q1 tq1 tr1 r1
    assume ih: "\<And>st2 sd2 lim2 q2 tq2 tr2 r2. f st2 sd2 lim2 q2 tq2 tr2 = Some r2 \<Longrightarrow> P st2 sd2 lim2 q2 tq2 tr2 r2"
      and step2: "(if 0 < q1 then
        (if sd1 = Bid then
           (case getBestAsk st1 of
              None \<Rightarrow> Some (Inr (q1, tr1), st1)
            | Some best_ask \<Rightarrow>
                if best_ask > lim1 then Some (Inr (q1, tr1), st1)
                else
                  (case priceMap (asks st1) best_ask of
                     None \<Rightarrow> Some (Inl KeyError, st1)
                   | Some lvl \<Rightarrow>
                       Option.bind (process_price_level st1 Ask best_ask q1 tq1 [])
                         (\<lambda>(qty', newTrades, st'). f st' sd1 lim1 qty' tq1 (tr1 @ newTrades))))
         else
           (case getBestBid st1 of
              None \<Rightarrow> Some (Inr (q1, tr1), st1)
            | Some best_bid \<Rightarrow>
                if best_bid < lim1 then Some (Inr (q1, tr1), st1)
                else
                  (case priceMap (bids st1) best_bid of
                     None \<Rightarrow> Some (Inl KeyError, st1)
                   | Some lvl \<Rightarrow>
                       Option.bind (process_price_level st1 Bid best_bid q1 tq1 [])
                         (\<lambda>(qty', newTrades, st'). f st' sd1 lim1 qty' tq1 (tr1 @ newTrades)))))
      else Some (Inr (q1, tr1), st1)) = Some r1"
    show "P st1 sd1 lim1 q1 tq1 tr1 r1"
      unfolding P_def
    proof (intro impI, elim conjE)
      assume eq: "sd1 = sd" "lim1 = lim" "tq1 = tq" and i: "I st1 q1 tr1"
      have body: "(if 0 < q1 then
          (case best_opposite st1 sd of
             None \<Rightarrow> Some (Inr (q1, tr1), st1)
           | Some b \<Rightarrow>
               if out_of_limit sd lim b then Some (Inr (q1, tr1), st1)
               else
                 (case priceMap (tree st1 (opposite sd)) b of
                    None \<Rightarrow> Some (Inl KeyError, st1)
                  | Some lvl \<Rightarrow>
                      Option.bind (process_price_level st1 (opposite sd) b q1 tq [])
                        (\<lambda>(q', nt, st'). f st' sd lim q' tq (tr1 @ nt))))
        else Some (Inr (q1, tr1), st1)) = Some r1"
        using step2 eq by (cases sd) (simp_all add: best_opposite_def opposite_def tree_def out_of_limit_def cong: option.case_cong if_cong)
      show "case r1 of (res, st') \<Rightarrow>
              (case res of Inl e \<Rightarrow> (\<exists>q' tr'. I st' q' tr') | Inr (q', tr') \<Rightarrow> I st' q' tr')"
      proof (cases "0 < q1")
        case False
        with body i show ?thesis by auto
      next
        case pos: True
        show ?thesis
        proof (cases "best_opposite st1 sd")
          case None
          with body pos i show ?thesis by auto
        next
          case (Some b)
          show ?thesis
          proof (cases "out_of_limit sd lim b")
            case True
            with body pos Some i show ?thesis by auto
          next
            case nb: False
            show ?thesis
            proof (cases "priceMap (tree st1 (opposite sd)) b")
              case None
              from i have ex: "\<exists>q' tr'. I st1 q' tr'" by blast
              from body pos Some nb None have "r1 = (Inl KeyError, st1)" by simp
              with ex show ?thesis by simp
            next
              case (Some lvl)
              with body pos \<open>best_opposite st1 sd = Some b\<close> nb
              obtain q2 nt st2 where
                p: "process_price_level st1 (opposite sd) b q1 tq [] = Some (q2, nt, st2)" and
                f: "f st2 sd lim q2 tq (tr1 @ nt) = Some r1"
                by (auto simp: bind_eq_Some_conv)
              from step[OF i pos \<open>best_opposite st1 sd = Some b\<close> nb Some p]
              have "I st2 q2 (tr1 @ nt)" .
              with ih[OF f] show ?thesis by (simp add: P_def)
            qed
          qed
        qed
      qed
    qed
  qed
  with init show ?thesis by (simp add: P_def)
qed

lemma market_loop_invariant:
  assumes run: "market_loop st sd q tq tr = Some (res, st')"
    and init: "I st q tr"
    and step: "\<And>st q tr b lvl q' nt st'.
                 I st q tr \<Longrightarrow> 0 < q \<Longrightarrow> best_opposite st sd = Some b \<Longrightarrow>
                 priceMap (tree st (opposite sd)) b = Some lvl \<Longrightarrow>
                 process_price_level st (opposite sd) b q tq [] = Some (q', nt, st') \<Longrightarrow>
                 I st' q' (tr @ nt)"
  shows "case res of Inl e \<Rightarrow> (\<exists>q' tr'. I st' q' tr') | Inr (q', tr') \<Rightarrow> I st' q' tr'"
proof -
  define P where "P = (\<lambda>st0 sd0 q0 tq0 tr0 r.
    sd0 = sd \<and> tq0 = tq \<and> I st0 q0 tr0 \<longrightarrow>
        (case r of (res, st') \<Rightarrow>
           (case res of Inl (e::error) \<Rightarrow> (\<exists>q' tr'. I st' q' tr') | Inr (q', tr') \<Rightarrow> I st' q' tr')))"
  have "P st sd q tq tr (res, st')"
  proof (rule market_loop.raw_induct[where P = P, OF _ run])
    fix f st1 sd1 q1 tq1 tr1 r1
    assume ih: "\<And>st2 sd2 q2 tq2 tr2 r2. f st2 sd2 q2 tq2 tr2 = Some r2 \<Longrightarrow> P st2 sd2 q2 tq2 tr2 r2"
      and step2: "(if 0 < q1 then
        (if sd1 = Bid then
           (case getBestAsk st1 of
              None \<Rightarrow> Some (Inr (q1, tr1), st1)
            | Some best_ask \<Rightarrow>
                (case priceMap (asks st1) best_ask of
                   None \<Rightarrow> Some (Inl KeyError, st1)
                 | Some lvl \<Rightarrow>
                     Option.bind (process_price_level st1 Ask best_ask q1 tq1 [])
                       (\<lambda>(qty', newTrades, st'). f st' sd1 qty' tq1 (tr1 @ newTrades))))
         else
           (case getBestBid st1 of
              None \<Rightarrow> Some (Inr (q1, tr1), st1)
            | Some best_bid \<Rightarrow>
                (case priceMap (bids st1) best_bid of
                   None \<Rightarrow> Some (Inl KeyError, st1)
                 | Some lvl \<Rightarrow>
                     Option.bind (process_price_level st1 Bid best_bid q1 tq1 [])
                       (\<lambda>(qty', newTrades, st'). f st' sd1 qty' tq1 (tr1 @ newTrades)))))
      else Some (Inr (q1, tr1), st1)) = Some r1"
    show "P st1 sd1 q1 tq1 tr1 r1"
      unfolding P_def
    proof (intro impI, elim conjE)
      assume eq: "sd1 = sd" "tq1 = tq" and i: "I st1 q1 tr1"
      have body: "(if 0 < q1 then
          (case best_opposite st1 sd of
             None \<Rightarrow> Some (Inr (q1, tr1), st1)
           | Some b \<Rightarrow>
               (case priceMap (tree st1 (opposite sd)) b of
                  None \<Rightarrow> Some (Inl KeyError, st1)
                | Some lvl \<Rightarrow>
                    Option.bind (process_price_level st1 (opposite sd) b q1 tq [])
                      (\<lambda>(q', nt, st'). f st' sd q' tq (tr1 @ nt))))
        else Some (Inr (q1, tr1), st1)) = Some r1"
        using step2 eq by (cases sd) (simp_all add: best_opposite_def opposite_def tree_def out_of_limit_def cong: option.case_cong if_cong)
      show "case r1 of (res, st') \<Rightarrow>
              (case res of Inl e \<Rightarrow> (\<exists>q' tr'. I st' q' tr') | Inr (q', tr') \<Rightarrow> I st' q' tr')"
      proof (cases "0 < q1")
        case False
        with body i show ?thesis by auto
      next
        case pos: True
        show ?thesis
        proof (cases "best_opposite st1 sd")
          case None
          with body pos i show ?thesis by auto
        next
          case (Some b)
          show ?thesis
          proof (cases "priceMap (tree st1 (opposite sd)) b")
            case None
            from i have ex: "\<exists>q' tr'. I st1 q' tr'" by blast
            from body pos Some None have "r1 = (Inl KeyError, st1)" by simp
            with ex show ?thesis by simp
          next
            case (Some lvl)
            with body pos \<open>best_opposite st1 sd = Some b\<close>
            obtain q2 nt st2 where
              p: "process_price_level st1 (opposite sd) b q1 tq [] = Some (q2, nt, st2)" and
              f: "f st2 sd q2 tq (tr1 @ nt) = Some r1"
              by (auto simp: bind_eq_Some_conv)
            from step[OF i pos \<open>best_opposite st1 sd = Some b\<close> Some p]
            have "I st2 q2 (tr1 @ nt)" .
            with ih[OF f] show ?thesis by (simp add: P_def)
          qed
        qed
      qed
    qed
  qed
  with init show ?thesis by (simp add: P_def)
qed

subsection \<open>Well-formedness is kept by the book-side operations\<close>

lemma set_insert_price [simp]: "set (insert_price p xs) = insert p (set xs)"
  by (induction xs) auto

lemma sorted_insert_price: "sorted xs \<Longrightarrow> sorted (insert_price p xs)"
  by (induction xs) auto

lemma distinct_insert_price: "distinct xs \<Longrightarrow> p \<notin> set xs \<Longrightarrow> distinct (insert_price p xs)"
  by (induction xs) auto

lemma side_ok_index_only [simp]:
  "side_ok (bs\<lparr>orderMap := om\<rparr>) = side_ok bs"
  "side_ok (bs\<lparr>nOrders := n\<rparr>) = side_ok bs"
  by (simp_all add: side_ok_def)

lemma side_ok_same_levels:
  "priceMap bs' = priceMap bs \<Longrightarrow> prices bs' = prices bs \<Longrightarrow> side_ok bs' = side_ok bs"
  by (simp add: side_ok_def)

lemma side_ok_level: "side_ok bs \<Longrightarrow> priceMap bs p = Some lvl \<Longrightarrow> level_ok p lvl"
  by (simp add: side_ok_def)

lemma side_ok_update_level:
  assumes "side_ok bs" "priceMap bs p = Some lvl" "level_ok p lvl'"
  shows "side_ok (bs\<lparr>priceMap := (priceMap bs)(p \<mapsto> lvl')\<rparr>)"
proof -
  from assms(2) have "insert p (dom (priceMap bs)) = dom (priceMap bs)" by auto
  with assms(1,3) show ?thesis by (auto simp: side_ok_def)
qed

lemma side_ok_remove_level:
  assumes "side_ok bs"
  shows "side_ok (bs\<lparr>priceMap := (priceMap bs)(p := None), prices := remove1 p (prices bs)\<rparr>)"
  using assms by (auto simp: side_ok_def sorted_remove1)

lemma level_ok_append:
  "level_ok p lvl \<Longrightarrow> 0 < qty ord \<Longrightarrow> level_ok p (append_order lvl ord)"
  by (auto simp: level_ok_def append_order_def)

lemma level_ok_new_append:
  "0 < qty ord \<Longrightarrow> level_ok p (append_order (new_level p) ord)"
  by (auto simp: level_ok_def append_order_def new_level_def)

lemma side_ok_insert_order:
  assumes "side_ok bs" "0 < qty ord"
  shows "side_ok (insert_order bs ord)"
proof (cases "priceMap bs (price ord)")
  case None
  with assms(1) have "price ord \<notin> set (prices bs)"
    by (auto simp: side_ok_def)
  with assms None show ?thesis
    by (auto simp: side_ok_def insert_order_def ensure_level_def sorted_insert_price
        distinct_insert_price level_ok_new_append)
next
  case (Some lvl)
  from side_ok_update_level[OF assms(1) Some level_ok_append[OF side_ok_level[OF assms(1) Some] assms(2)]]
  show ?thesis
    using Some by (simp add: insert_order_def ensure_level_def)
qed

lemma side_ok_prune_if_empty:
  assumes "side_ok (bs\<lparr>priceMap := (priceMap bs)(p := None), prices := remove1 p (prices bs)\<rparr>)"
    and "\<And>lvl. priceMap bs p = Some lvl \<Longrightarrow> queue lvl \<noteq> [] \<Longrightarrow> side_ok bs"
    and "priceMap bs p = None \<Longrightarrow> side_ok bs"
  shows "side_ok (prune_if_empty bs p)"
  using assms by (auto simp: prune_if_empty_def is_empty_def split: option.splits)

text \<open>What the scan of \<open>remove_by_id\<close> computes.\<close>

lemma scan_queue_removed:
  "scan_queue i q newq True vol = (newq @ q, vol)"
  by (induction q arbitrary: newq) auto

lemma scan_queue_spec:
  "scan_queue i q newq False vol =
     (case find (\<lambda>ord. idNum ord = i) q of
        None \<Rightarrow> (newq @ q, vol)
      | Some x \<Rightarrow> (newq @ takeWhile (\<lambda>ord. idNum ord \<noteq> i) q @ tl (dropWhile (\<lambda>ord. idNum ord \<noteq> i) q),
                   vol - qty x))"
  by (induction q arbitrary: newq) (auto simp: scan_queue_removed split: option.splits)

lemma find_dropWhile:
  "find P xs = Some x \<Longrightarrow>
   dropWhile (\<lambda>y. \<not> P y) xs \<noteq> [] \<and> hd (dropWhile (\<lambda>y. \<not> P y) xs) = x"
  by (induction xs) (auto split: if_splits)

lemma scan_queue_level_ok:
  assumes "level_ok p lvl" "scan_queue i (queue lvl) [] False (volume lvl) = (newq, vol)"
    and "newq \<noteq> []"
  shows "level_ok p (lvl\<lparr>queue := newq, volume := vol\<rparr>)"
proof (cases "find (\<lambda>ord. idNum ord = i) (queue lvl)")
  case None
  with assms(2) have "newq = queue lvl" "vol = volume lvl"
    by (simp_all add: scan_queue_spec)
  with assms(1) show ?thesis by simp
next
  case (Some x)
  let ?P = "\<lambda>ord. idNum ord \<noteq> i"
  let ?q = "queue lvl"
  from find_dropWhile[OF Some] have ne: "dropWhile ?P ?q \<noteq> []" and hd: "hd (dropWhile ?P ?q) = x"
    by simp_all
  have q: "?q = takeWhile ?P ?q @ x # tl (dropWhile ?P ?q)"
    using ne hd by (metis hd_Cons_tl takeWhile_dropWhile_id)
  have nq: "newq = takeWhile ?P ?q @ tl (dropWhile ?P ?q)" and v: "vol = volume lvl - qty x"
    using assms(2) Some by (simp_all add: scan_queue_spec)
  have "sum_list (map qty ?q) = sum_list (map qty newq) + qty x"
    by (subst q) (simp add: nq)
  moreover have "set (tl (dropWhile ?P ?q)) \<subseteq> set ?q"
    using ne by (metis list.set_sel(2) set_dropWhileD subsetI)
  then have "set newq \<subseteq> set ?q"
    unfolding nq by (auto dest: set_takeWhileD)
  ultimately show ?thesis
    using assms(1,3) v by (auto simp: level_ok_def)
qed

lemma side_ok_remove_by_id:
  assumes "side_ok bs" "remove_by_id bs i = Inr (ord, bs')"
  shows "side_ok bs'"
proof -
  from assms(2) obtain o1 where om: "orderMap bs i = Some o1"
    by (auto simp: remove_by_id_def split: option.splits)
  let ?p = "price o1"
  let ?bs1 = "bs\<lparr>orderMap := (orderMap bs)(i := None)\<rparr>"
  show ?thesis
  proof (cases "priceMap bs ?p")
    case None
    with assms om show ?thesis
      by (auto simp: remove_by_id_def Let_def)
  next
    case (Some lvl)
    obtain newq vol where sq: "scan_queue i (queue lvl) [] False (volume lvl) = (newq, vol)"
      by (cases "scan_queue i (queue lvl) [] False (volume lvl)") auto
    let ?bs2 = "?bs1\<lparr>priceMap := (priceMap ?bs1)(?p \<mapsto> lvl\<lparr>queue := newq, volume := vol\<rparr>)\<rparr>"
    have bs': "bs' = (prune_if_empty ?bs2 ?p)\<lparr>nOrders := nOrders (prune_if_empty ?bs2 ?p) - 1\<rparr>"
      using assms(2) om Some sq by (auto simp: remove_by_id_def Let_def)
    have "side_ok (prune_if_empty ?bs2 ?p)"
    proof (rule side_ok_prune_if_empty)
      show "side_ok (?bs2\<lparr>priceMap := (priceMap ?bs2)(?p := None), prices := remove1 ?p (prices ?bs2)\<rparr>)"
        using side_ok_remove_level[OF assms(1), of ?p]
        by (subst side_ok_same_levels[where bs = "bs\<lparr>priceMap := (priceMap bs)(?p := None), prices := remove1 ?p (prices bs)\<rparr>"]) simp_all
    next
      fix l assume "priceMap ?bs2 ?p = Some l" "queue l \<noteq> []"
      then have "newq \<noteq> []" by auto
      from scan_queue_level_ok[OF side_ok_level[OF assms(1) Some] sq this]
      have "side_ok (bs\<lparr>priceMap := (priceMap bs)(?p \<mapsto> lvl\<lparr>queue := newq, volume := vol\<rparr>)\<rparr>)"
        by (rule side_ok_update_level[OF assms(1) Some])
      then show "side_ok ?bs2"
        by (subst side_ok_same_levels[where bs = "bs\<lparr>priceMap := (priceMap bs)(?p \<mapsto> lvl\<lparr>queue := newq, volume := vol\<rparr>)\<rparr>"]) simp_all
    next
      assume "priceMap ?bs2 ?p = None"
      then show "side_ok ?bs2" by simp
    qed
    with bs' show ?thesis by simp
  qed
qed

subsection \<open>Well-formedness is kept by matching\<close>

lemma book_ok_set_tree:
  "book_ok st \<Longrightarrow> side_ok bs' \<Longrightarrow> book_ok (set_tree st s bs')"
  by (cases s) (simp_all add: book_ok_def set_tree_def)

lemma book_ok_tree: "book_ok st \<Longrightarrow> side_ok (tree st s)"
  by (simp add: book_ok_def tree_def)

lemma book_ok_other_fields [simp]:
  "book_ok (st\<lparr>tape := tp\<rparr>) = book_ok st"
  "book_ok (st\<lparr>time := tm\<rparr>) = book_ok st"
  "book_ok (st\<lparr>nextQuoteID := n\<rparr>) = book_ok st"
  by (simp_all add: book_ok_def)

lemma book_ok_record_trade [simp]: "book_ok (record_trade st q p t m) = book_ok st"
  by (simp add: record_trade_def)

lemma book_ok_counters_advanced [simp]: "book_ok (counters_advanced st qt) = book_ok st"
  by (simp add: counters_advanced_def split: option.splits)

lemma book_ok_set_tree_again:
  "book_ok st \<Longrightarrow> side_ok bs3 \<Longrightarrow>
   book_ok (set_tree (record_trade (set_tree st s bs1) a b c d) s bs3)"
  by (cases s) (simp_all add: book_ok_def set_tree_def record_trade_def)

lemma registry_ok_delete: "registry_ok reg \<Longrightarrow> registry_ok (reg(i := None))"
  by (simp add: registry_ok_def)

lemma registry_ok_update:
  "registry_ok reg \<Longrightarrow> 0 < display info \<Longrightarrow> 0 < remaining info \<Longrightarrow>
   registry_ok (reg(i \<mapsto> info))"
  by (simp add: registry_ok_def)

lemma book_ok_icebergs:
  "book_ok st \<Longrightarrow> registry_ok reg \<Longrightarrow> book_ok (st\<lparr>icebergs := reg\<rparr>)"
  by (simp add: book_ok_def)

lemma book_ok_replenish:
  assumes "book_ok st"
  shows "book_ok (iceberg_replenish_if_needed st s r)"
proof (cases "icebergs st (idNum r)")
  case None
  with assms show ?thesis
    by (simp add: iceberg_replenish_if_needed_def Let_def book_ok_def registry_ok_def)
next
  case (Some info)
  with assms have pos: "0 < display info" "0 < remaining info"
    by (auto simp: book_ok_def registry_ok_def)
  then have clip: "0 < min (display info) (remaining info)"
    by simp
  from assms have sides: "side_ok (bids st)" "side_ok (asks st)"
    and reg: "\<And>i x. icebergs st i = Some x \<Longrightarrow> 0 < display x \<and> 0 < remaining x"
    by (auto simp: book_ok_def registry_ok_def)
  show ?thesis
    using Some pos sides reg side_ok_insert_order[OF sides(1), of "\<lparr>idNum = nextQuoteID st, tid = ib_tid info, price = ib_price info,
                 qty = min (display info) (remaining info), timestamp = time st, ref = nextRef st\<rparr>"]
      side_ok_insert_order[OF sides(2), of "\<lparr>idNum = nextQuoteID st, tid = ib_tid info, price = ib_price info,
                 qty = min (display info) (remaining info), timestamp = time st, ref = nextRef st\<rparr>"]
    by (cases s)
       (auto simp: iceberg_replenish_if_needed_def Let_def book_ok_def registry_ok_def
          set_tree_def tree_def min_def split: if_splits)
qed

text \<open>What \<open>consume_head\<close> does to a well-formed level when something is needed.\<close>

lemma consume_head_partial:
  "queue lvl = h # rest \<Longrightarrow> 0 < need \<Longrightarrow> need < qty h \<Longrightarrow>
   consume_head lvl need =
     (need, None, lvl\<lparr>queue := h\<lparr>qty := qty h - need\<rparr> # rest, volume := volume lvl - need\<rparr>)"
  by (simp add: consume_head_def Let_def)

lemma consume_head_full:
  "queue lvl = h # rest \<Longrightarrow> 0 < need \<Longrightarrow> qty h \<le> need \<Longrightarrow>
   consume_head lvl need =
     (qty h, Some (h\<lparr>qty := 0\<rparr>), lvl\<lparr>queue := rest, volume := volume lvl - qty h\<rparr>)"
  by (simp add: consume_head_def Let_def min_absorb2)

lemma consume_head_ok:
  assumes "level_ok p lvl" "0 < need" "consume_head lvl need = (taken, removed, lvl')"
  shows "0 < taken \<and> taken \<le> need \<and> lv_price lvl' = p \<and>
         (queue lvl' \<noteq> [] \<longrightarrow> level_ok p lvl') \<and>
         (removed = None \<longrightarrow> queue lvl' \<noteq> [])"
proof -
  from assms(1) obtain h rest where q: "queue lvl = h # rest"
    by (cases "queue lvl") (auto simp: level_ok_def)
  with assms(1) have h: "0 < qty h" and vol: "volume lvl = qty h + sum_list (map qty rest)"
    and rest: "\<forall>x \<in> set rest. 0 < qty x" and lp: "lv_price lvl = p"
    by (simp_all add: level_ok_def)
  show ?thesis
  proof (cases "need < qty h")
    case True
    from consume_head_partial[OF q assms(2) True] assms(3)
    have "taken = need" "removed = None"
      "lvl' = lvl\<lparr>queue := h\<lparr>qty := qty h - need\<rparr> # rest, volume := volume lvl - need\<rparr>"
      by simp_all
    with True assms(2) vol rest lp show ?thesis
      by (simp add: level_ok_def)
  next
    case False
    then have "qty h \<le> need" by simp
    from consume_head_full[OF q assms(2) this] assms(3)
    have "taken = qty h" "removed \<noteq> None"
      "lvl' = lvl\<lparr>queue := rest, volume := volume lvl - qty h\<rparr>"
      by simp_all
    with False h vol rest lp show ?thesis
      by (auto simp: level_ok_def)
  qed
qed

lemma book_ok_level_iter:
  assumes ok: "book_ok st" and c: "level_cond st s p q"
    and li: "level_iter st s p q tq tr = (lv, q', tr', st')"
  shows "book_ok st'"
proof -
  from c obtain lvl where lvl: "priceMap (tree st s) p = Some lvl" and pos: "0 < q"
    by (auto simp: level_cond_def split: option.splits)
  have sok: "side_ok (tree st s)" by (rule book_ok_tree[OF ok])
  have lok: "level_ok p lvl" by (rule side_ok_level[OF sok lvl])
  obtain taken removed lvl' where ch: "consume_head lvl q = (taken, removed, lvl')"
    by (cases "consume_head lvl q") auto
  from consume_head_ok[OF lok pos ch] have
    t: "0 < taken" and lp: "lv_price lvl' = p" and
    nl: "queue lvl' \<noteq> [] \<Longrightarrow> level_ok p lvl'" and rn: "removed = None \<Longrightarrow> queue lvl' \<noteq> []"
    by simp_all
  define om where "om = (case queue lvl of [] \<Rightarrow> orderMap (tree st s)
                        | h # _ \<Rightarrow> sync_order (orderMap (tree st s)) h (h\<lparr>qty := qty h - taken\<rparr>))"
  define bs1 where "bs1 = (tree st s)\<lparr>priceMap := (priceMap (tree st s))(p \<mapsto> lvl'), orderMap := om\<rparr>"
  define st2 where "st2 = record_trade (set_tree st s bs1) taken (lv_price lvl') (q_tid tq)
      (case removed of Some r \<Rightarrow> tid r
       | None \<Rightarrow> (case head lvl' of Some h \<Rightarrow> tid h | None \<Rightarrow> q_tid tq))"
  have side1: "side_ok bs1" if "queue lvl' \<noteq> []"
  proof -
    have "side_ok ((tree st s)\<lparr>priceMap := (priceMap (tree st s))(p \<mapsto> lvl')\<rparr>)"
      by (rule side_ok_update_level[OF sok lvl nl[OF that]])
    then show ?thesis
      by (subst side_ok_same_levels[where bs = "(tree st s)\<lparr>priceMap := (priceMap (tree st s))(p \<mapsto> lvl')\<rparr>"])
         (simp_all add: bs1_def)
  qed
  show ?thesis
  proof (cases removed)
    case None
    from li lvl ch t None have "st' = st2"
      by (simp add: level_iter_def Let_def st2_def bs1_def om_def)
    with side1[OF rn[OF None]] ok show ?thesis
      by (simp add: st2_def book_ok_set_tree)
  next
    case (Some r)
    define bs3 where "bs3 = (if is_empty lvl' then drop_level (forget_order (tree st2 s) (idNum r)) (lv_price lvl')
                             else forget_order (tree st2 s) (idNum r))"
    from li lvl ch t Some have st': "st' = iceberg_replenish_if_needed (set_tree st2 s bs3) s r"
      by (auto simp: level_iter_def Let_def st2_def bs1_def om_def bs3_def)
    have t2: "tree st2 s = bs1"
      by (simp add: st2_def record_trade_def)
    have "side_ok bs3"
    proof (cases "queue lvl' = []")
      case False
      with side1 show ?thesis
        by (simp add: bs3_def t2 is_empty_def forget_order_def)
    next
      case True
      have "side_ok ((tree st s)\<lparr>priceMap := (priceMap (tree st s))(p := None),
                                prices := remove1 p (prices (tree st s))\<rparr>)"
        by (rule side_ok_remove_level[OF sok])
      then show ?thesis
        by (subst side_ok_same_levels[where bs = "(tree st s)\<lparr>priceMap := (priceMap (tree st s))(p := None),
                                prices := remove1 p (prices (tree st s))\<rparr>"])
           (simp_all add: bs3_def t2 True is_empty_def forget_order_def drop_level_def bs1_def lp)
    qed
    with ok have "book_ok (set_tree st2 s bs3)"
      unfolding st2_def by (rule book_ok_set_tree_again)
    then show ?thesis
      unfolding st' by (rule book_ok_replenish)
  qed
qed

lemma book_ok_process_price_level:
  assumes "process_price_level st s p q tq tr = Some (q', tr', st')" "book_ok st"
  shows "book_ok st'"
  by (rule process_price_level_invariant[where I = "\<lambda>st q tr. book_ok st", OF assms])
     (rule book_ok_level_iter)

lemma book_ok_limit_loop:
  assumes "limit_loop st sd lim q tq tr = Some (res, st')" "book_ok st"
  shows "book_ok st'"
proof -
  have "case res of Inl e \<Rightarrow> (\<exists>(q'::int) (tr'::trade list). book_ok st')
          | Inr (q', tr') \<Rightarrow> book_ok st'"
    by (rule limit_loop_invariant[where I = "\<lambda>st q tr. book_ok st", OF assms])
       (auto intro: book_ok_process_price_level)
  then show ?thesis by (cases res) auto
qed

lemma book_ok_market_loop:
  assumes "market_loop st sd q tq tr = Some (res, st')" "book_ok st"
  shows "book_ok st'"
proof -
  have "case res of Inl e \<Rightarrow> (\<exists>(q'::int) (tr'::trade list). book_ok st')
          | Inr (q', tr') \<Rightarrow> book_ok st'"
    by (rule market_loop_invariant[where I = "\<lambda>st q tr. book_ok st", OF assms])
       (auto intro: book_ok_process_price_level)
  then show ?thesis by (cases res) auto
qed

lemma book_ok_rest_order:
  assumes "book_ok st" "iceberg_fields_ok qt" "rest_order st qt p q tr = (res, st')"
  shows "book_ok st'"
proof (cases "q_tif qt = IOC \<or> q \<le> 0 \<or> q_idNum qt = None \<or> q_timestamp qt = None")
  case True
  with assms(1,3) show ?thesis
    by (auto simp: rest_order_def split: option.splits if_splits)
next
  case False
  then obtain i ts where f: "q_tif qt \<noteq> IOC" "0 < q" "q_idNum qt = Some i" "q_timestamp qt = Some ts"
    by auto
  have ins: "book_ok (set_tree st (q_side qt) (insert_order (tree st (q_side qt)) ord))"
    if "0 < qty ord" for ord
    by (rule book_ok_set_tree[OF assms(1) side_ok_insert_order[OF book_ok_tree[OF assms(1)] that]])
  show ?thesis
  proof (cases "iceberg_total qt")
    case None
    with assms(3) f ins[of "\<lparr>idNum = i, tid = q_tid qt, price = p, qty = q, timestamp = ts, ref = nextRef st\<rparr>"]
    show ?thesis by (auto simp: rest_order_def Let_def)
  next
    case t: (Some t)
    show ?thesis
    proof (cases "iceberg_display qt")
      case None
      with assms(3) f t ins[of "\<lparr>idNum = i, tid = q_tid qt, price = p, qty = q, timestamp = ts, ref = nextRef st\<rparr>"]
      show ?thesis by (auto simp: rest_order_def Let_def)
    next
      case (Some d)
      with assms(2) t have d: "0 < d" "d \<le> t"
        by (simp_all add: iceberg_fields_ok_def)
      let ?clip = "min d (min t q)"
      let ?ord = "\<lparr>idNum = i, tid = q_tid qt, price = p, qty = ?clip, timestamp = ts, ref = nextRef st\<rparr>"
      let ?st1 = "(set_tree st (q_side qt) (insert_order (tree st (q_side qt)) ?ord))
                    \<lparr>nextRef := Suc (nextRef st)\<rparr>"
      from d f have c: "0 < ?clip" by simp
      from ins[of ?ord] c have ok1: "book_ok ?st1" by simp
      then have reg: "registry_ok (icebergs ?st1)" by (simp add: book_ok_def)
      have ok2: "book_ok (?st1\<lparr>icebergs := (icebergs ?st1)(i \<mapsto>
                   \<lparr>ib_price = p, display = d, remaining = t - ?clip, ib_tid = q_tid qt\<rparr>)\<rparr>)"
        if "0 < t - ?clip"
        by (rule book_ok_icebergs[OF ok1 registry_ok_update[OF reg]]) (use d that in simp_all)
      have "st' = (if 0 < t - ?clip
                   then ?st1\<lparr>icebergs := (icebergs ?st1)(i \<mapsto>
                          \<lparr>ib_price = p, display = d, remaining = t - ?clip, ib_tid = q_tid qt\<rparr>)\<rparr>
                   else ?st1)"
        using assms(3) f t Some unfolding rest_order_def Let_def
        by (auto simp del: min_less_iff_conj)
      with ok1 ok2 show ?thesis by (simp del: min_less_iff_conj split: if_splits)
    qed
  qed
qed

lemma book_ok_process_limit:
  assumes "process_limit st qt = Some (res, st')" "book_ok st" "iceberg_fields_ok qt"
  shows "book_ok st'"
proof -
  from assms(1) consider
      (same) "st' = st"
    | (loop_err) p e where "limit_loop st (q_side qt) p (q_qty qt) qt [] = Some (Inl e, st')"
    | (rest) p ql trades st1 where
        "limit_loop st (q_side qt) p (q_qty qt) qt [] = Some (Inr (ql, trades), st1)"
        "rest_order st1 qt p ql trades = (res, st')"
    by (auto simp: process_limit_def split: option.splits sum.splits if_splits prod.splits)
  then show ?thesis
  proof cases
    case same
    with assms(2) show ?thesis by simp
  next
    case loop_err
    from book_ok_limit_loop[OF this assms(2)] show ?thesis .
  next
    case rest
    from book_ok_rest_order[OF book_ok_limit_loop[OF rest(1) assms(2)] assms(3) rest(2)]
    show ?thesis .
  qed
qed

lemma book_ok_process_market:
  assumes "process_market st qt = Some (res, st')" "book_ok st"
  shows "book_ok st'"
proof -
  from assms(1) obtain r where "market_loop st (q_side qt) (q_qty qt) qt [] = Some (r, st')"
    by (auto simp: process_market_def split: option.splits sum.splits prod.splits)
  from book_ok_market_loop[OF this assms(2)] show ?thesis .
qed

lemma iceberg_fields_ok_stamped [simp]:
  "iceberg_fields_ok (qt\<lparr>q_timestamp := a, q_idNum := b\<rparr>) = iceberg_fields_ok qt"
  by (simp add: iceberg_fields_ok_def)

lemma book_ok_processOrder:
  assumes "processOrder st qt = Some (res, st')" "book_ok st" "iceberg_fields_ok qt"
  shows "book_ok st'"
proof (cases "q_type qt")
  case Market
  with assms(1) obtain r where
    "process_market (counters_advanced st qt)
       (qt\<lparr>q_timestamp := Some (case q_timestamp qt of None \<Rightarrow> time st | Some t \<Rightarrow> t),
           q_idNum := Some (case q_idNum qt of None \<Rightarrow> nextQuoteID st | Some j \<Rightarrow> j)\<rparr>) = Some (r, st')"
    by (auto simp: processOrder_market split: option.splits sum.splits prod.splits)
  from book_ok_process_market[OF this] assms(2) show ?thesis by simp
next
  case Limit
  show ?thesis
  proof (cases "q_price qt")
    case None
    with Limit assms(1,2) show ?thesis
      by (auto simp: processOrder_def Let_def counters_advanced_def split: option.splits)
  next
    case (Some lim)
    from assms(1) have
      "process_limit (counters_advanced st qt)
         (qt\<lparr>q_timestamp := Some (case q_timestamp qt of None \<Rightarrow> time st | Some t \<Rightarrow> t),
             q_idNum := Some (case q_idNum qt of None \<Rightarrow> nextQuoteID st | Some j \<Rightarrow> j)\<rparr>) = Some (res, st')"
      by (simp add: processOrder_limit'[OF Limit Some])
    from book_ok_process_limit[OF this] assms(2,3) show ?thesis by simp
  qed
qed

subsection \<open>The level invariant\<close>

lemma new_book_ok: "book_ok new_book"
  by (simp add: book_ok_def new_book_def side_ok_def new_side_def registry_ok_def)

lemma side_ok_levels_consistent: "side_ok bs \<Longrightarrow> levels_consistent bs"
  by (auto simp: side_ok_def levels_consistent_def level_ok_def)

subsection \<open>Returned trades and the tape\<close>

lemma tape_replenish [simp]: "tape (iceberg_replenish_if_needed st s r) = tape st"
  by (simp add: iceberg_replenish_if_needed_def Let_def split: option.splits)

lemma trades_on_tape_refl: "trades_on_tape t st tr st tr"
  by (simp add: trades_on_tape_def)

lemma trades_on_tape_same_tape:
  "trades_on_tape t st tr st1 tr1 \<Longrightarrow> tape st2 = tape st1 \<Longrightarrow> trades_on_tape t st tr st2 tr1"
  by (simp add: trades_on_tape_def)

lemma trades_on_tape_trans:
  "trades_on_tape t st tr st1 tr1 \<Longrightarrow> trades_on_tape t st1 tr1 st2 tr2 \<Longrightarrow>
   trades_on_tape t st tr st2 tr2"
  by (auto simp: trades_on_tape_def)

lemma trades_on_tape_append:
  "trades_on_tape t st [] st1 nt \<Longrightarrow> trades_on_tape t st tr st1 (tr @ nt)"
  by (auto simp: trades_on_tape_def)

lemma trades_on_tape_level_iter:
  assumes "level_iter st s p q tq tr = (lv, q', tr', st')"
  shows "trades_on_tape (q_tid tq) st tr st' tr'"
proof (cases "priceMap (tree st s) p")
  case None
  with assms show ?thesis by (simp add: level_iter_def trades_on_tape_refl)
next
  case (Some lvl)
  obtain taken removed lvl' where ch: "consume_head lvl q = (taken, removed, lvl')"
    by (cases "consume_head lvl q") auto
  show ?thesis
  proof (cases "taken = 0")
    case True
    with assms Some ch have "tape st' = tape st" "tr' = tr"
      by (auto simp: level_iter_def Let_def)
    then show ?thesis by (simp add: trades_on_tape_def)
  next
    case False
    with assms Some ch have
      "\<exists>m. tape st' = tape st @ [\<lparr>tp_qty = taken, tp_price = lv_price lvl',
                                  taker_tid = q_tid tq, maker_tid = m\<rparr>]"
      "tr' = tr @ [\<lparr>t_qty = taken, t_price = lv_price lvl'\<rparr>]"
      by (auto simp: level_iter_def Let_def record_trade_def split: option.splits)
    then show ?thesis
      by (auto simp: trades_on_tape_def trade_of_def)
  qed
qed

lemma trades_on_tape_process_price_level:
  assumes "process_price_level st s p q tq tr = Some (q', tr', st')"
  shows "trades_on_tape (q_tid tq) st tr st' tr'"
  by (rule process_price_level_invariant
        [where I = "\<lambda>st1 q1 tr1. trades_on_tape (q_tid tq) st tr st1 tr1", OF assms])
     (auto intro: trades_on_tape_refl trades_on_tape_trans trades_on_tape_level_iter)

lemma trades_on_tape_limit_loop:
  assumes "limit_loop st sd lim q tq tr = Some (Inr (q', tr'), st')"
  shows "trades_on_tape (q_tid tq) st tr st' tr'"
proof -
  have "case Inr (q', tr') of Inl (e::error) \<Rightarrow> (\<exists>(q'::int) tr'. trades_on_tape (q_tid tq) st tr st' tr')
        | Inr (q', tr') \<Rightarrow> trades_on_tape (q_tid tq) st tr st' tr'"
    by (rule limit_loop_invariant
          [where I = "\<lambda>st1 q1 tr1. trades_on_tape (q_tid tq) st tr st1 tr1", OF assms])
       (auto intro: trades_on_tape_refl trades_on_tape_trans trades_on_tape_append
          trades_on_tape_process_price_level)
  then show ?thesis by simp
qed

lemma trades_on_tape_market_loop:
  assumes "market_loop st sd q tq tr = Some (Inr (q', tr'), st')"
  shows "trades_on_tape (q_tid tq) st tr st' tr'"
proof -
  have "case Inr (q', tr') of Inl (e::error) \<Rightarrow> (\<exists>(q'::int) tr'. trades_on_tape (q_tid tq) st tr st' tr')
        | Inr (q', tr') \<Rightarrow> trades_on_tape (q_tid tq) st tr st' tr'"
    by (rule market_loop_invariant
          [where I = "\<lambda>st1 q1 tr1. trades_on_tape (q_tid tq) st tr st1 tr1", OF assms])
       (auto intro: trades_on_tape_refl trades_on_tape_trans trades_on_tape_append
          trades_on_tape_process_price_level)
  then show ?thesis by simp
qed

lemma rest_order_tape:
  "rest_order st qt p q tr = (Inr (tr', ro), st') \<Longrightarrow> tape st' = tape st \<and> tr' = tr"
  by (auto simp: rest_order_def Let_def split: if_splits option.splits)

lemma trades_on_tape_process_limit:
  assumes "process_limit st qt = Some (Inr (trades, ro), st')"
  shows "trades_on_tape (q_tid qt) st [] st' trades"
proof -
  from assms consider
      (same) "st' = st" "trades = []"
    | (rest) p ql tr1 st1 where
        "limit_loop st (q_side qt) p (q_qty qt) qt [] = Some (Inr (ql, tr1), st1)"
        "rest_order st1 qt p ql tr1 = (Inr (trades, ro), st')"
    by (auto simp: process_limit_def split: option.splits sum.splits if_splits prod.splits)
  then show ?thesis
  proof cases
    case same
    then show ?thesis by (simp add: trades_on_tape_refl)
  next
    case rest
    from rest_order_tape[OF rest(2)] trades_on_tape_limit_loop[OF rest(1)]
    show ?thesis by (auto intro: trades_on_tape_same_tape)
  qed
qed

lemma trades_on_tape_processOrder:
  assumes "processOrder st qt = Some (Inr (trades, ro), st')"
  shows "trades_on_tape (q_tid qt) st [] st' trades"
proof (cases "q_type qt")
  case Market
  let ?qt = "qt\<lparr>q_timestamp := Some (case q_timestamp qt of None \<Rightarrow> time st | Some t \<Rightarrow> t),
               q_idNum := Some (case q_idNum qt of None \<Rightarrow> nextQuoteID st | Some j \<Rightarrow> j)\<rparr>"
  from assms Market obtain ql where
    "market_loop (counters_advanced st qt) (q_side qt) (q_qty qt) ?qt [] = Some (Inr (ql, trades), st')"
    by (auto simp: processOrder_market process_market_def split: option.splits sum.splits prod.splits)
  from trades_on_tape_market_loop[OF this] show ?thesis
    by (simp add: trades_on_tape_def)
next
  case Limit
  with assms obtain lim where lim: "q_price qt = Some lim"
    by (cases "q_price qt") (auto simp: processOrder_def Let_def split: option.splits)
  let ?qt = "qt\<lparr>q_timestamp := Some (case q_timestamp qt of None \<Rightarrow> time st | Some t \<Rightarrow> t),
               q_idNum := Some (case q_idNum qt of None \<Rightarrow> nextQuoteID st | Some j \<Rightarrow> j)\<rparr>"
  from assms have "process_limit (counters_advanced st qt) ?qt = Some (Inr (trades, ro), st')"
    by (simp add: processOrder_limit'[OF Limit lim])
  from trades_on_tape_process_limit[OF this] show ?thesis
    by (simp add: trades_on_tape_def)
qed

text \<open>
  C5, as the claim states it, fails: the elements of the returned trade list carry the
  executed quantity and the price only. Two market bids of 5 from different owners on the
  sample book return the same trade list, while the tape records owner 7 and owner 8 as
  taker.
\<close>

theorem returned_trades_no_owner_counterexample:
  "map_option fst (processOrder demo_book (market_quote Bid 5 7)) =
     Some (Inr ([\<lparr>t_qty = 5, t_price = 101\<rparr>], None)) \<and>
   map_option fst (processOrder demo_book (market_quote Bid 5 8)) =
     Some (Inr ([\<lparr>t_qty = 5, t_price = 101\<rparr>], None)) \<and>
   map_option (tape \<circ> snd) (processOrder demo_book (market_quote Bid 5 7)) =
     Some [\<lparr>tp_qty = 5, tp_price = 101, taker_tid = 7, maker_tid = 1\<rparr>] \<and>
   map_option (tape \<circ> snd) (processOrder demo_book (market_quote Bid 5 8)) =
     Some [\<lparr>tp_qty = 5, tp_price = 101, taker_tid = 8, maker_tid = 1\<rparr>]"
  by code_simp

subsection \<open>Queues at a tick\<close>

lemma queue_at_Some: "priceMap bs p = Some lvl \<Longrightarrow> queue_at bs p = queue lvl"
  by (simp add: queue_at_def)

lemma queue_at_None: "priceMap bs p = None \<Longrightarrow> queue_at bs p = []"
  by (simp add: queue_at_def)

lemma queue_at_same_levels:
  "priceMap bs' = priceMap bs \<Longrightarrow> queue_at bs' = queue_at bs"
  by (simp add: queue_at_def fun_eq_iff)

lemma queue_at_insert_order:
  "queue_at (insert_order bs ord) t = queue_at bs t @ (if t = price ord then [ord] else [])"
  by (simp add: queue_at_def insert_order_def ensure_level_def append_order_def new_level_def
      split: option.splits)

lemma dom_insert_order: "dom (priceMap (insert_order bs ord)) = insert (price ord) (dom (priceMap bs))"
  by (auto simp: insert_order_def ensure_level_def split: option.splits)

lemma side_ok_queue_at_nonempty:
  "side_ok bs \<Longrightarrow> p \<in> dom (priceMap bs) \<Longrightarrow> queue_at bs p \<noteq> []"
  by (auto simp: side_ok_def level_ok_def queue_at_def)

text \<open>The best tick reported by a well-formed side has no better tick beside it.\<close>

lemma best_price_min_no_better:
  assumes "side_ok bs" "best_price_min bs = Some b"
  shows "no_better Ask bs b \<and> b \<in> dom (priceMap bs)"
proof -
  from assms(2) obtain ps where ps: "prices bs = b # ps"
    by (auto simp: best_price_min_def split: list.splits)
  with assms(1) have "\<forall>t \<in> set (prices bs). b \<le> t" "set (prices bs) = dom (priceMap bs)"
    by (auto simp: side_ok_def)
  with ps show ?thesis by (auto simp: no_better_def)
qed

lemma best_price_max_no_better:
  assumes "side_ok bs" "best_price_max bs = Some b"
  shows "no_better Bid bs b \<and> b \<in> dom (priceMap bs)"
proof -
  from assms(2) have ne: "prices bs \<noteq> []" and b: "b = last (prices bs)"
    by (auto simp: best_price_max_def split: if_splits)
  from assms(1) have s: "sorted (prices bs)" and d: "set (prices bs) = dom (priceMap bs)"
    by (auto simp: side_ok_def)
  from ne obtain xs where xs: "prices bs = xs @ [b]"
    using b by (metis append_butlast_last_id)
  with s have "\<forall>t \<in> set (prices bs). t \<le> b"
    by (auto simp: sorted_append)
  with d xs show ?thesis by (auto simp: no_better_def)
qed

lemma best_opposite_no_better:
  assumes "book_ok st" "best_opposite st sd = Some b"
  shows "no_better (opposite sd) (tree st (opposite sd)) b \<and>
         b \<in> dom (priceMap (tree st (opposite sd)))"
proof (cases sd)
  case Bid
  with assms best_price_min_no_better[of "asks st" b] show ?thesis
    by (simp add: best_opposite_def opposite_def tree_def getBestAsk_def book_ok_def)
next
  case Ask
  with assms best_price_max_no_better[of "bids st" b] show ?thesis
    by (simp add: best_opposite_def opposite_def tree_def getBestBid_def book_ok_def)
qed

subsection \<open>What one pass of the matching loop does\<close>

lemma tree_opposite_set_tree [simp]: "tree (set_tree st s bs) (opposite s) = tree st (opposite s)"
  by (cases s) (simp_all add: opposite_def)

lemma tree_record_trade [simp]: "tree (record_trade st a b c d) s = tree st s"
  by (simp add: record_trade_def)

lemma record_trade_fields [simp]:
  "tape (record_trade st a b c d) = tape st @ [\<lparr>tp_qty = a, tp_price = b, taker_tid = c, maker_tid = d\<rparr>]"
  "icebergs (record_trade st a b c d) = icebergs st"
  "nextQuoteID (record_trade st a b c d) = nextQuoteID st"
  "time (record_trade st a b c d) = time st"
  by (simp_all add: record_trade_def)

lemma level_iter_partial:
  assumes "priceMap (tree st s) p = Some lvl" "queue lvl = h # rest" "lv_price lvl = p"
    and "0 < q" "q < qty h"
  shows "\<exists>st'. level_iter st s p q tq tr = (False, 0, tr @ [\<lparr>t_qty = q, t_price = p\<rparr>], st') \<and>
           tape st' = tape st @ [\<lparr>tp_qty = q, tp_price = p, taker_tid = q_tid tq, maker_tid = tid h\<rparr>] \<and>
           icebergs st' = icebergs st \<and> nextQuoteID st' = nextQuoteID st \<and>
           tree st' (opposite s) = tree st (opposite s) \<and>
           priceMap (tree st' s) =
             (priceMap (tree st s))(p \<mapsto> lvl\<lparr>queue := h\<lparr>qty := qty h - q\<rparr> # rest,
                                              volume := volume lvl - q\<rparr>)"
  using assms
  by (simp add: level_iter_def consume_head_partial[OF assms(2,4,5)] Let_def head_def)

lemma level_iter_full:
  assumes "priceMap (tree st s) p = Some lvl" "queue lvl = h # rest" "lv_price lvl = p"
    and "0 < q" "0 < qty h" "qty h \<le> q"
  shows "\<exists>st3. level_iter st s p q tq tr =
             (rest = [], q - qty h, tr @ [\<lparr>t_qty = qty h, t_price = p\<rparr>],
              iceberg_replenish_if_needed st3 s (h\<lparr>qty := 0\<rparr>)) \<and>
           tape st3 = tape st @ [\<lparr>tp_qty = qty h, tp_price = p, taker_tid = q_tid tq, maker_tid = tid h\<rparr>] \<and>
           icebergs st3 = icebergs st \<and> nextQuoteID st3 = nextQuoteID st \<and>
           tree st3 (opposite s) = tree st (opposite s) \<and>
           priceMap (tree st3 s) =
             (if rest = [] then (priceMap (tree st s))(p := None)
              else (priceMap (tree st s))(p \<mapsto> lvl\<lparr>queue := rest, volume := volume lvl - qty h\<rparr>))"
  using assms
  by (cases "rest = []")
     (auto simp: level_iter_def consume_head_full[OF assms(2,4,6)] Let_def is_empty_def
        forget_order_def drop_level_def intro!: exI)

lemma replenish_none:
  "icebergs st (idNum r) = None \<Longrightarrow>
   iceberg_replenish_if_needed st s r = st\<lparr>icebergs := (icebergs st)(idNum r := None)\<rparr>"
  by (simp add: iceberg_replenish_if_needed_def Let_def)

lemma replenish_some:
  assumes "icebergs st (idNum r) = Some info" "0 < remaining info"
  shows "\<exists>st'. iceberg_replenish_if_needed st s r = st' \<and>
           tape st' = tape st \<and> nextQuoteID st' = nextQuoteID st + 1 \<and>
           tree st' (opposite s) = tree st (opposite s) \<and>
           tree st' s = insert_order (tree st s)
             \<lparr>idNum = nextQuoteID st, tid = ib_tid info, price = ib_price info,
              qty = min (display info) (remaining info), timestamp = time st, ref = nextRef st\<rparr> \<and>
           (\<forall>i. icebergs st' i =
              (if i = nextQuoteID st \<and> min (display info) (remaining info) < remaining info
               then Some (info\<lparr>remaining := remaining info - min (display info) (remaining info)\<rparr>)
               else if i = idNum r then None else icebergs st i))"
  using assms
  by (cases "display info \<le> remaining info")
     (auto simp: iceberg_replenish_if_needed_def Let_def min_def)

lemma side_cases: "s' = s \<or> s' = opposite s"
  by (cases s; cases s') (simp_all add: opposite_def)

lemma registry_consistentI:
  assumes a: "\<And>p ord info. ord \<in> set (queue_at (tree st s) p) \<Longrightarrow>
             icebergs st (idNum ord) = Some info \<Longrightarrow> ib_price info = p \<and> ib_tid info = tid ord"
    and b: "\<And>p ord info. ord \<in> set (queue_at (tree st (opposite s)) p) \<Longrightarrow>
             icebergs st (idNum ord) = Some info \<Longrightarrow> ib_price info = p \<and> ib_tid info = tid ord"
  shows "registry_consistent st"
  unfolding registry_consistent_def
proof (intro allI impI, elim conjE)
  fix s' p ord info
  assume m: "ord \<in> set (queue_at (tree st s') p)" and i: "icebergs st (idNum ord) = Some info"
  from side_cases[of s' s] show "ib_price info = p \<and> ib_tid info = tid ord"
  proof
    assume "s' = s" with m i show ?thesis by (simp add: a)
  next
    assume "s' = opposite s" with m i show ?thesis by (simp add: b)
  qed
qed

lemma registry_consistentD:
  "registry_consistent st \<Longrightarrow> ord \<in> set (queue_at (tree st s) p) \<Longrightarrow>
   icebergs st (idNum ord) = Some info \<Longrightarrow> ib_price info = p \<and> ib_tid info = tid ord"
  unfolding registry_consistent_def by blast

lemma ids_freshI:
  assumes a: "\<And>p ord. ord \<in> set (queue_at (tree st s) p) \<Longrightarrow> idNum ord < nextQuoteID st"
    and b: "\<And>p ord. ord \<in> set (queue_at (tree st (opposite s)) p) \<Longrightarrow> idNum ord < nextQuoteID st"
    and c: "\<And>i info. icebergs st i = Some info \<Longrightarrow> i < nextQuoteID st"
  shows "ids_fresh st"
  unfolding ids_fresh_def
proof (intro conjI ballI allI impI)
  fix i assume "i \<in> dom (icebergs st)"
  then show "i < nextQuoteID st" by (auto intro: c)
next
  fix s' p ord
  assume m: "ord \<in> set (queue_at (tree st s') p)"
  from side_cases[of s' s] show "idNum ord < nextQuoteID st"
  proof
    assume "s' = s" with m show ?thesis by (simp add: a)
  next
    assume "s' = opposite s" with m show ?thesis by (simp add: b)
  qed
qed

lemma ids_freshD:
  "ids_fresh st \<Longrightarrow> ord \<in> set (queue_at (tree st s) p) \<Longrightarrow> idNum ord < nextQuoteID st"
  unfolding ids_fresh_def by blast

lemma ids_fresh_registryD:
  "ids_fresh st \<Longrightarrow> icebergs st i = Some info \<Longrightarrow> i < nextQuoteID st"
  unfolding ids_fresh_def by blast

lemma level_iter_fill_partial:
  assumes rc: "registry_consistent st" and fr: "ids_fresh st"
    and lvl: "priceMap (tree st s) p = Some lvl" "queue lvl = h # rest" "lv_price lvl = p"
    and q: "0 < q" "q < qty h"
    and nb: "no_better s (tree st s) p"
    and li: "level_iter st s p q tq tr = (lv, q', tr', st')"
  shows "fill_step s (q_tid tq) st st' \<and> registry_consistent st' \<and> ids_fresh st' \<and>
         no_better s (tree st' s) p"
proof -
  from level_iter_partial[OF lvl q, of tq tr] li have
    tape: "tape st' = tape st @ [\<lparr>tp_qty = q, tp_price = p, taker_tid = q_tid tq, maker_tid = tid h\<rparr>]"
    and reg: "icebergs st' = icebergs st" and n: "nextQuoteID st' = nextQuoteID st"
    and opp: "tree st' (opposite s) = tree st (opposite s)"
    and pm: "priceMap (tree st' s) =
             (priceMap (tree st s))(p \<mapsto> lvl\<lparr>queue := h\<lparr>qty := qty h - q\<rparr> # rest,
                                              volume := volume lvl - q\<rparr>)"
    by auto
  have qa: "queue_at (tree st s) p = h # rest"
    using lvl by (simp add: queue_at_def)
  have qa': "queue_at (tree st' s) t =
               (if t = p then h\<lparr>qty := qty h - q\<rparr> # rest else queue_at (tree st s) t)" for t
    by (simp add: queue_at_def pm)
  have old: "\<exists>y \<in> set (queue_at (tree st s) t). idNum y = idNum x \<and> tid y = tid x"
    if "x \<in> set (queue_at (tree st' s) t)" for x t
    using that qa by (auto simp: qa' split: if_splits)
  have fill: "fill_step s (q_tid tq) st st'"
    unfolding fill_step_def
    by (rule exI[of _ p], rule exI[of _ h], rule exI[of _ rest], rule exI[of _ q], rule exI[of _ "[]"])
       (use qa qa' tape q nb in simp)
  have rc': "registry_consistent st'"
  proof (rule registry_consistentI[of _ s])
    fix t x info assume x: "x \<in> set (queue_at (tree st' s) t)" and i: "icebergs st' (idNum x) = Some info"
    from old[OF x] obtain y where y: "y \<in> set (queue_at (tree st s) t)" "idNum y = idNum x" "tid y = tid x"
      by blast
    from registry_consistentD[OF rc y(1), of info] i reg y(2,3)
    show "ib_price info = t \<and> ib_tid info = tid x" by simp
  next
    fix t x info assume "x \<in> set (queue_at (tree st' (opposite s)) t)" "icebergs st' (idNum x) = Some info"
    with registry_consistentD[OF rc, of x "opposite s" t info] reg opp
    show "ib_price info = t \<and> ib_tid info = tid x" by simp
  qed
  have fr': "ids_fresh st'"
  proof (rule ids_freshI[of _ s])
    fix t x assume x: "x \<in> set (queue_at (tree st' s) t)"
    from old[OF x] obtain y where y: "y \<in> set (queue_at (tree st s) t)" "idNum y = idNum x"
      by blast
    from ids_freshD[OF fr y(1)] n y(2)
    show "idNum x < nextQuoteID st'" by simp
  next
    fix t x assume "x \<in> set (queue_at (tree st' (opposite s)) t)"
    with ids_freshD[OF fr, of x "opposite s" t] n opp
    show "idNum x < nextQuoteID st'" by simp
  next
    fix i info assume "icebergs st' i = Some info"
    with ids_fresh_registryD[OF fr, of i info] reg n
    show "i < nextQuoteID st'" by simp
  qed
  have "no_better s (tree st' s) p"
    using nb lvl(1) by (auto simp: no_better_def pm)
  with fill rc' fr' show ?thesis by simp
qed

lemma no_better_subset:
  assumes "no_better s bs p" "dom (priceMap bs') \<subseteq> insert p (dom (priceMap bs))"
  shows "no_better s bs' p"
  unfolding no_better_def
proof
  fix t assume "t \<in> dom (priceMap bs')"
  with assms(2) have "t = p \<or> t \<in> dom (priceMap bs)" by blast
  with assms(1) show "if s = Ask then p \<le> t else t \<le> p"
    by (auto simp: no_better_def)
qed

lemma level_iter_fill_full:
  assumes ok: "book_ok st" and rc: "registry_consistent st" and fr: "ids_fresh st"
    and lvl: "priceMap (tree st s) p = Some lvl" "queue lvl = h # rest" "lv_price lvl = p"
    and q: "0 < q" "0 < qty h" "qty h \<le> q"
    and nb: "no_better s (tree st s) p"
    and li: "level_iter st s p q tq tr = (lv, q', tr', st')"
  shows "fill_step s (q_tid tq) st st' \<and> registry_consistent st' \<and> ids_fresh st' \<and>
         no_better s (tree st' s) p"
proof -
  let ?h0 = "h\<lparr>qty := 0\<rparr>"
  let ?e = "\<lparr>tp_qty = qty h, tp_price = p, taker_tid = q_tid tq, maker_tid = tid h\<rparr>"
  from level_iter_full[OF lvl q, of tq tr] li obtain st3 where
    st': "st' = iceberg_replenish_if_needed st3 s ?h0"
    and tape3: "tape st3 = tape st @ [?e]"
    and reg3: "icebergs st3 = icebergs st" and n3: "nextQuoteID st3 = nextQuoteID st"
    and opp3: "tree st3 (opposite s) = tree st (opposite s)"
    and pm3: "priceMap (tree st3 s) =
             (if rest = [] then (priceMap (tree st s))(p := None)
              else (priceMap (tree st s))(p \<mapsto> lvl\<lparr>queue := rest, volume := volume lvl - qty h\<rparr>))"
    by auto
  have qa: "queue_at (tree st s) p = h # rest"
    using lvl by (simp add: queue_at_def)
  have qa3: "queue_at (tree st3 s) t = (if t = p then rest else queue_at (tree st s) t)" for t
    by (simp add: queue_at_def pm3)
  have dom3: "dom (priceMap (tree st3 s)) \<subseteq> dom (priceMap (tree st s))"
    using lvl(1) by (auto simp: pm3 split: if_splits)
  show ?thesis
  proof (cases "icebergs st (idNum h)")
    case None
    with st' reg3 have st'': "st' = st3\<lparr>icebergs := (icebergs st)(idNum h := None)\<rparr>"
      by (simp add: replenish_none)
    have tape: "tape st' = tape st @ [?e]" and n: "nextQuoteID st' = nextQuoteID st"
      and reg: "icebergs st' = icebergs st"
      and trees: "tree st' s = tree st3 s" "tree st' (opposite s) = tree st (opposite s)"
      using None by (simp_all add: st'' tape3 n3 opp3 fun_upd_idem)
    have qa': "queue_at (tree st' s) t = (if t = p then rest else queue_at (tree st s) t)" for t
      by (simp add: trees qa3)
    have old: "x \<in> set (queue_at (tree st s) t)" if "x \<in> set (queue_at (tree st' s) t)" for x t
      using that qa by (auto simp: qa' split: if_splits)
    have fill: "fill_step s (q_tid tq) st st'"
      unfolding fill_step_def
      by (rule exI[of _ p], rule exI[of _ h], rule exI[of _ rest], rule exI[of _ "qty h"],
          rule exI[of _ "[]"])
         (use qa qa' tape q nb in simp)
    have rc': "registry_consistent st'"
    proof (rule registry_consistentI[of _ s])
      fix t x info assume x: "x \<in> set (queue_at (tree st' s) t)" and i: "icebergs st' (idNum x) = Some info"
      from registry_consistentD[OF rc old[OF x], of info] i reg
      show "ib_price info = t \<and> ib_tid info = tid x" by simp
    next
      fix t x info assume "x \<in> set (queue_at (tree st' (opposite s)) t)" "icebergs st' (idNum x) = Some info"
      with registry_consistentD[OF rc, of x "opposite s" t info] reg trees
      show "ib_price info = t \<and> ib_tid info = tid x" by simp
    qed
    have fr': "ids_fresh st'"
    proof (rule ids_freshI[of _ s])
      fix t x assume x: "x \<in> set (queue_at (tree st' s) t)"
      from ids_freshD[OF fr old[OF x]] n show "idNum x < nextQuoteID st'" by simp
    next
      fix t x assume "x \<in> set (queue_at (tree st' (opposite s)) t)"
      with ids_freshD[OF fr, of x "opposite s" t] n trees
      show "idNum x < nextQuoteID st'" by simp
    next
      fix i inf assume "icebergs st' i = Some inf"
      with ids_fresh_registryD[OF fr, of i inf] reg n
      show "i < nextQuoteID st'" by simp
    qed
    have "no_better s (tree st' s) p"
      by (rule no_better_subset[OF nb]) (use dom3 in \<open>auto simp: trees\<close>)
    with fill rc' fr' show ?thesis by simp
  next
    case (Some info)
    from ok Some have pos: "0 < display info" "0 < remaining info"
      by (auto simp: book_ok_def registry_ok_def)
    from registry_consistentD[OF rc _ Some, of s p] qa
    have ip: "ib_price info = p" "ib_tid info = tid h" by simp_all
    let ?clip = "min (display info) (remaining info)"
    let ?N = "nextQuoteID st"
    let ?ord = "\<lparr>idNum = ?N, tid = tid h, price = p, qty = ?clip, timestamp = time st3, ref = nextRef st3\<rparr>"
    from pos have clip: "0 < ?clip" by simp
    from replenish_some[of st3 ?h0 info s] Some pos reg3 st' ip have
      tape: "tape st' = tape st @ [?e]" and n: "nextQuoteID st' = ?N + 1"
      and opp: "tree st' (opposite s) = tree st (opposite s)"
      and own: "tree st' s = insert_order (tree st3 s) ?ord"
      and reg: "\<And>i. icebergs st' i =
              (if i = ?N \<and> ?clip < remaining info
               then Some (info\<lparr>remaining := remaining info - ?clip\<rparr>)
               else if i = idNum h then None else icebergs st i)"
      by (simp_all add: tape3 n3 opp3)
    have qa': "queue_at (tree st' s) t = (if t = p then rest @ [?ord] else queue_at (tree st s) t)" for t
      by (simp add: own queue_at_insert_order qa3)
    have old: "x \<in> set (queue_at (tree st s) t) \<or> (x = ?ord \<and> t = p)"
      if "x \<in> set (queue_at (tree st' s) t)" for x t
      using that qa by (auto simp: qa' split: if_splits)
    have fill: "fill_step s (q_tid tq) st st'"
      unfolding fill_step_def
      by (rule exI[of _ p], rule exI[of _ h], rule exI[of _ rest], rule exI[of _ "qty h"],
          rule exI[of _ "[?ord]"])
         (use qa qa' tape q nb clip in simp)
    have keep: "ib_price inf = t \<and> ib_tid inf = tid x"
      if x: "x \<in> set (queue_at (tree st s') t)" and i: "icebergs st' (idNum x) = Some inf"
      for s' t x inf
    proof -
      from ids_freshD[OF fr x] have "idNum x \<noteq> ?N" by simp
      with i reg[of "idNum x"] have "icebergs st (idNum x) = Some inf"
        by (simp split: if_splits)
      from registry_consistentD[OF rc x this] show ?thesis .
    qed
    have rc': "registry_consistent st'"
    proof (rule registry_consistentI[of _ s])
      fix t x inf assume x: "x \<in> set (queue_at (tree st' s) t)" and i: "icebergs st' (idNum x) = Some inf"
      from old[OF x] show "ib_price inf = t \<and> ib_tid inf = tid x"
      proof
        assume "x \<in> set (queue_at (tree st s) t)"
        from keep[OF this i] show ?thesis .
      next
        assume xo: "x = ?ord \<and> t = p"
        have "icebergs st ?N = None"
          using ids_fresh_registryD[OF fr, of ?N] by (cases "icebergs st ?N") auto
        with xo i reg[of ?N] ip show ?thesis by (auto split: if_splits)
      qed
    next
      fix t x inf assume "x \<in> set (queue_at (tree st' (opposite s)) t)" "icebergs st' (idNum x) = Some inf"
      with keep[of x "opposite s" t inf] opp
      show "ib_price inf = t \<and> ib_tid inf = tid x" by simp
    qed
    have fr': "ids_fresh st'"
    proof (rule ids_freshI[of _ s])
      fix t x assume x: "x \<in> set (queue_at (tree st' s) t)"
      from old[OF x] ids_freshD[OF fr, of x s t] n show "idNum x < nextQuoteID st'" by auto
    next
      fix t x assume "x \<in> set (queue_at (tree st' (opposite s)) t)"
      with ids_freshD[OF fr, of x "opposite s" t] n opp
      show "idNum x < nextQuoteID st'" by simp
    next
      fix i inf assume "icebergs st' i = Some inf"
      with ids_fresh_registryD[OF fr, of i inf] reg[of i] n
      show "i < nextQuoteID st'" by (auto split: if_splits)
    qed
    have "dom (priceMap (tree st' s)) \<subseteq> insert p (dom (priceMap (tree st s)))"
      using dom3 by (auto simp: own dom_insert_order)
    then have "no_better s (tree st' s) p"
      by (rule no_better_subset[OF nb])
    with fill rc' fr' show ?thesis by simp
  qed
qed

text \<open>
  Every pass of the matching loop over the level at a tick that has no better tick beside
  it is one fill in price-time priority, and keeps what the next pass needs.
\<close>

lemma level_iter_fill:
  assumes ok: "book_ok st" and rc: "registry_consistent st" and fr: "ids_fresh st"
    and c: "level_cond st s p q" and nb: "no_better s (tree st s) p"
    and li: "level_iter st s p q tq tr = (lv, q', tr', st')"
  shows "fill_step s (q_tid tq) st st' \<and> registry_consistent st' \<and> ids_fresh st' \<and>
         no_better s (tree st' s) p"
proof -
  from c obtain lvl where lvl: "priceMap (tree st s) p = Some lvl" and pos: "0 < q"
    by (auto simp: level_cond_def split: option.splits)
  from side_ok_level[OF book_ok_tree[OF ok] lvl] obtain h rest where
    l: "queue lvl = h # rest" "lv_price lvl = p" "0 < qty h"
    by (cases "queue lvl") (auto simp: level_ok_def)
  show ?thesis
  proof (cases "q < qty h")
    case True
    from level_iter_fill_partial[OF rc fr lvl l(1,2) pos True nb li] show ?thesis .
  next
    case False
    then have "qty h \<le> q" by simp
    from level_iter_fill_full[OF ok rc fr lvl l(1,2) pos l(3) this nb li] show ?thesis .
  qed
qed

subsection \<open>Crossing is a sequence of fills in price-time priority\<close>

lemma fills_process_price_level:
  assumes run: "process_price_level st s p q tq tr = Some (q', tr', st')"
    and ok: "book_ok st" and rc: "registry_consistent st" and fr: "ids_fresh st"
    and nb: "no_better s (tree st s) p"
  shows "book_ok st' \<and> registry_consistent st' \<and> ids_fresh st' \<and>
         (fill_step s (q_tid tq))\<^sup>*\<^sup>* st st'"
proof -
  let ?I = "\<lambda>st1 (q1::int) (tr1::trade list).
              book_ok st1 \<and> registry_consistent st1 \<and> ids_fresh st1 \<and>
              no_better s (tree st1 s) p \<and> (fill_step s (q_tid tq))\<^sup>*\<^sup>* st st1"
  have "?I st' q' tr'"
  proof (rule process_price_level_invariant[where I = ?I, OF run])
    show "?I st q tr" using ok rc fr nb by simp
  next
    fix st1 q1 tr1 leave q2 tr2 st2
    assume i: "?I st1 q1 tr1" and c: "level_cond st1 s p q1"
      and li: "level_iter st1 s p q1 tq tr1 = (leave, q2, tr2, st2)"
    from i have ok1: "book_ok st1" and rc1: "registry_consistent st1" and fr1: "ids_fresh st1"
      and nb1: "no_better s (tree st1 s) p" and f1: "(fill_step s (q_tid tq))\<^sup>*\<^sup>* st st1"
      by simp_all
    from level_iter_fill[OF ok1 rc1 fr1 c nb1 li] book_ok_level_iter[OF ok1 c li] f1
    show "?I st2 q2 tr2" by (auto intro: rtranclp.rtrancl_into_rtrancl)
  qed
  then show ?thesis by simp
qed

lemma fills_limit_loop:
  assumes run: "limit_loop st sd lim q tq tr = Some (res, st')"
    and ok: "book_ok st" and rc: "registry_consistent st" and fr: "ids_fresh st"
  shows "book_ok st' \<and> registry_consistent st' \<and> ids_fresh st' \<and>
         (fill_step (opposite sd) (q_tid tq))\<^sup>*\<^sup>* st st'"
proof -
  let ?I = "\<lambda>st1 (q1::int) (tr1::trade list).
              book_ok st1 \<and> registry_consistent st1 \<and> ids_fresh st1 \<and>
              (fill_step (opposite sd) (q_tid tq))\<^sup>*\<^sup>* st st1"
  have "case res of Inl e \<Rightarrow> (\<exists>q' tr'. ?I st' q' tr') | Inr (q', tr') \<Rightarrow> ?I st' q' tr'"
  proof (rule limit_loop_invariant[where I = ?I, OF run])
    show "?I st q tr" using ok rc fr by simp
  next
    fix st1 q1 tr1 b lvl q2 nt st2
    assume i: "?I st1 q1 tr1" and b: "best_opposite st1 sd = Some b"
      and p: "process_price_level st1 (opposite sd) b q1 tq [] = Some (q2, nt, st2)"
    from i have ok1: "book_ok st1" and rc1: "registry_consistent st1" and fr1: "ids_fresh st1"
      and f1: "(fill_step (opposite sd) (q_tid tq))\<^sup>*\<^sup>* st st1"
      by simp_all
    from best_opposite_no_better[OF ok1 b]
    have nb: "no_better (opposite sd) (tree st1 (opposite sd)) b" by simp
    from fills_process_price_level[OF p ok1 rc1 fr1 nb] f1
    show "?I st2 q2 (tr1 @ nt)" by auto
  qed
  then show ?thesis by (cases res) auto
qed

lemma fills_market_loop:
  assumes run: "market_loop st sd q tq tr = Some (res, st')"
    and ok: "book_ok st" and rc: "registry_consistent st" and fr: "ids_fresh st"
  shows "book_ok st' \<and> registry_consistent st' \<and> ids_fresh st' \<and>
         (fill_step (opposite sd) (q_tid tq))\<^sup>*\<^sup>* st st'"
proof -
  let ?I = "\<lambda>st1 (q1::int) (tr1::trade list).
              book_ok st1 \<and> registry_consistent st1 \<and> ids_fresh st1 \<and>
              (fill_step (opposite sd) (q_tid tq))\<^sup>*\<^sup>* st st1"
  have "case res of Inl e \<Rightarrow> (\<exists>q' tr'. ?I st' q' tr') | Inr (q', tr') \<Rightarrow> ?I st' q' tr'"
  proof (rule market_loop_invariant[where I = ?I, OF run])
    show "?I st q tr" using ok rc fr by simp
  next
    fix st1 q1 tr1 b lvl q2 nt st2
    assume i: "?I st1 q1 tr1" and b: "best_opposite st1 sd = Some b"
      and p: "process_price_level st1 (opposite sd) b q1 tq [] = Some (q2, nt, st2)"
    from i have ok1: "book_ok st1" and rc1: "registry_consistent st1" and fr1: "ids_fresh st1"
      and f1: "(fill_step (opposite sd) (q_tid tq))\<^sup>*\<^sup>* st st1"
      by simp_all
    from best_opposite_no_better[OF ok1 b]
    have nb: "no_better (opposite sd) (tree st1 (opposite sd)) b" by simp
    from fills_process_price_level[OF p ok1 rc1 fr1 nb] f1
    show "?I st2 q2 (tr1 @ nt)" by auto
  qed
  then show ?thesis by (cases res) auto
qed

lemma rest_order_opposite:
  "rest_order st qt p q tr = (res, st') \<Longrightarrow>
   tape st' = tape st \<and> tree st' (opposite (q_side qt)) = tree st (opposite (q_side qt))"
  by (auto simp: rest_order_def Let_def split: if_splits option.splits)

lemma registry_consistent_counters [simp]:
  "registry_consistent (counters_advanced st qt) = registry_consistent st"
  by (simp add: registry_consistent_def)

lemma ids_fresh_counters:
  assumes "ids_fresh st"
  shows "ids_fresh (counters_advanced st qt)"
proof -
  have n: "nextQuoteID st \<le> nextQuoteID (counters_advanced st qt)"
    by (simp add: counters_advanced_def split: option.splits)
  show ?thesis
  proof (rule ids_freshI[of _ Bid])
    fix p ord assume "ord \<in> set (queue_at (tree (counters_advanced st qt) Bid) p)"
    with ids_freshD[OF assms, of ord Bid p] n
    show "idNum ord < nextQuoteID (counters_advanced st qt)" by simp
  next
    fix p ord assume "ord \<in> set (queue_at (tree (counters_advanced st qt) (opposite Bid)) p)"
    with ids_freshD[OF assms, of ord "opposite Bid" p] n
    show "idNum ord < nextQuoteID (counters_advanced st qt)" by simp
  next
    fix i info assume "icebergs (counters_advanced st qt) i = Some info"
    with ids_fresh_registryD[OF assms, of i info] n
    show "i < nextQuoteID (counters_advanced st qt)" by simp
  qed
qed

lemma demo_book_consistent: "registry_consistent demo_book \<and> ids_fresh demo_book"
  by (auto simp: registry_consistent_def ids_fresh_def queue_at_def tree_def demo_book_def
      demo_asks_def demo_bids_def split: if_splits option.splits)

lemma crossing_is_fills:
  assumes "book_ok st" "registry_consistent st" "ids_fresh st"
    and "processOrder st qt = Some (Inr (trades, ro), st')"
  shows "\<exists>st1. (fill_step (opposite (q_side qt)) (q_tid qt))\<^sup>*\<^sup>* (counters_advanced st qt) st1 \<and>
           tape st' = tape st1 \<and>
           tree st' (opposite (q_side qt)) = tree st1 (opposite (q_side qt))"
proof -
  let ?st2 = "counters_advanced st qt"
  let ?qt = "qt\<lparr>q_timestamp := Some (case q_timestamp qt of None \<Rightarrow> time st | Some t \<Rightarrow> t),
               q_idNum := Some (case q_idNum qt of None \<Rightarrow> nextQuoteID st | Some j \<Rightarrow> j)\<rparr>"
  have k: "book_ok ?st2" "registry_consistent ?st2" "ids_fresh ?st2"
    using assms(1,2) ids_fresh_counters[OF assms(3)] by simp_all
  show ?thesis
  proof (cases "q_type qt")
    case Market
    with assms(4) obtain ql where
      "market_loop ?st2 (q_side qt) (q_qty qt) ?qt [] = Some (Inr (ql, trades), st')"
      by (auto simp: processOrder_market process_market_def split: option.splits sum.splits prod.splits)
    from fills_market_loop[OF this k] show ?thesis by auto
  next
    case Limit
    with assms(4) obtain lim where lim: "q_price qt = Some lim"
      by (cases "q_price qt") (auto simp: processOrder_def Let_def split: option.splits)
    from assms(4) have "process_limit ?st2 ?qt = Some (Inr (trades, ro), st')"
      by (simp add: processOrder_limit'[OF Limit lim])
    then consider
        (same) "st' = ?st2"
      | (rest) p ql tr1 st1 where
          "limit_loop ?st2 (q_side qt) p (q_qty qt) ?qt [] = Some (Inr (ql, tr1), st1)"
          "rest_order st1 ?qt p ql tr1 = (Inr (trades, ro), st')"
      by (auto simp: process_limit_def split: option.splits sum.splits if_splits prod.splits)
    then show ?thesis
    proof cases
      case same
      then show ?thesis by auto
    next
      case rest
      from fills_limit_loop[OF rest(1) k] rest_order_opposite[OF rest(2)]
      show ?thesis by auto
    qed
  qed
qed

subsection \<open>An iceberg that crosses before it rests\<close>

text \<open>
  C4. The iceberg bid of 12 (display 5, declared total 12) meets the resting ask of 4:
  it executes 4, rests a visible clip of 5 and registers a hidden reserve of 7. Executed,
  visible and hidden quantity add up to 16, above the declared total of 12: the reserve
  is computed as \<open>total - clip\<close> and does not take off what the order has already traded.
\<close>

theorem iceberg_crossing_overcommits:
  "(case one_ask_book of
      None \<Rightarrow> None
    | Some st1 \<Rightarrow>
        (case processOrder st1 iceberg_bid of
           Some (Inr (trades, Some ord), st2) \<Rightarrow>
             Some (map t_qty trades, qty ord, map_option remaining (icebergs st2 (idNum ord)),
                   getVolumeAtPrice st2 Bid 101)
         | _ \<Rightarrow> None)) = Some ([4], 5, Some 7, 5)"
  by code_simp

subsection \<open>Submissions on a well-formed book return\<close>

lemma level_iter_progress:
  assumes ok: "book_ok st" and c: "level_cond st s p q"
    and li: "level_iter st s p q tq tr = (lv, q', tr', st')"
  shows "0 \<le> q' \<and> q' < q"
proof -
  from c obtain lvl where lvl: "priceMap (tree st s) p = Some lvl" and pos: "0 < q"
    by (auto simp: level_cond_def split: option.splits)
  from side_ok_level[OF book_ok_tree[OF ok] lvl] obtain h rest where
    l: "queue lvl = h # rest" "lv_price lvl = p" "0 < qty h"
    by (cases "queue lvl") (auto simp: level_ok_def)
  show ?thesis
  proof (cases "q < qty h")
    case True
    from level_iter_partial[OF lvl l(1,2) pos True, of tq tr] li pos show ?thesis by auto
  next
    case False
    then have "qty h \<le> q" by simp
    from level_iter_full[OF lvl l(1,2) pos l(3) this, of tq tr] li l(3) this show ?thesis by auto
  qed
qed

lemma process_price_level_returns:
  assumes "book_ok st"
  shows "\<exists>q' tr' st'. process_price_level st s p q tq tr = Some (q', tr', st') \<and>
           (level_cond st s p q \<longrightarrow> q' < q)"
  using assms
proof (induction "nat q" arbitrary: st q tr rule: less_induct)
  case less
  show ?case
  proof (cases "level_cond st s p q")
    case False
    then show ?thesis by (subst process_price_level.simps) simp
  next
    case True
    obtain lv q1 tr1 st1 where li: "level_iter st s p q tq tr = (lv, q1, tr1, st1)"
      by (cases "level_iter st s p q tq tr") auto
    from level_iter_progress[OF less.prems True li] have q1: "0 \<le> q1" "q1 < q" by simp_all
    show ?thesis
    proof (cases lv)
      case True
      with \<open>level_cond st s p q\<close> li q1 show ?thesis
        by (subst process_price_level.simps) simp
    next
      case False
      from q1 have "nat q1 < nat q" by simp
      from less.hyps[OF this book_ok_level_iter[OF less.prems True li], of tr1]
      obtain q' tr' st' where
        r: "process_price_level st1 s p q1 tq tr1 = Some (q', tr', st')"
           "level_cond st1 s p q1 \<longrightarrow> q' < q1"
        by blast
      have "q' \<le> q1"
      proof (cases "level_cond st1 s p q1")
        case True with r(2) show ?thesis by simp
      next
        case False
        with r(1) show ?thesis by (subst (asm) process_price_level.simps) simp
      qed
      with q1 r(1) False \<open>level_cond st s p q\<close> li show ?thesis
        by (subst process_price_level.simps) simp
    qed
  qed
qed

lemma best_opposite_level_cond:
  assumes "book_ok st" "best_opposite st sd = Some b" "0 < q"
  shows "level_cond st (opposite sd) b q \<and> priceMap (tree st (opposite sd)) b \<noteq> None"
proof -
  from best_opposite_no_better[OF assms(1,2)]
  obtain lvl where lvl: "priceMap (tree st (opposite sd)) b = Some lvl" by auto
  from side_ok_level[OF book_ok_tree[OF assms(1)] lvl] have "queue lvl \<noteq> []"
    by (simp add: level_ok_def)
  with lvl assms(3) show ?thesis by (simp add: level_cond_def is_empty_def)
qed

lemma limit_loop_returns:
  assumes "book_ok st"
  shows "\<exists>q' tr' st'. limit_loop st sd lim q tq tr = Some (Inr (q', tr'), st')"
  using assms
proof (induction "nat q" arbitrary: st q tr rule: less_induct)
  case less
  show ?case
  proof (cases "0 < q")
    case False
    then show ?thesis by (subst limit_loop_unfold) simp
  next
    case pos: True
    show ?thesis
    proof (cases "best_opposite st sd")
      case None
      with pos show ?thesis by (subst limit_loop_unfold) simp
    next
      case (Some b)
      show ?thesis
      proof (cases "out_of_limit sd lim b")
        case True
        with pos Some show ?thesis by (subst limit_loop_unfold) simp
      next
        case False
        from best_opposite_level_cond[OF less.prems Some pos] obtain lvl where
          c: "level_cond st (opposite sd) b q" and lvl: "priceMap (tree st (opposite sd)) b = Some lvl"
          by auto
        from process_price_level_returns[OF less.prems, of "opposite sd" b q tq "[]"] c
        obtain q1 nt st1 where
          p: "process_price_level st (opposite sd) b q tq [] = Some (q1, nt, st1)" and q1: "q1 < q"
          by blast
        from q1 pos have "nat q1 < nat q" by simp
        from less.hyps[OF this book_ok_process_price_level[OF p less.prems], of "tr @ nt"]
        obtain q' tr' st' where
          "limit_loop st1 sd lim q1 tq (tr @ nt) = Some (Inr (q', tr'), st')" by blast
        with pos Some False lvl p show ?thesis
          by (subst limit_loop_unfold) simp
      qed
    qed
  qed
qed

lemma market_loop_returns:
  assumes "book_ok st"
  shows "\<exists>q' tr' st'. market_loop st sd q tq tr = Some (Inr (q', tr'), st')"
  using assms
proof (induction "nat q" arbitrary: st q tr rule: less_induct)
  case less
  show ?case
  proof (cases "0 < q")
    case False
    then show ?thesis by (subst market_loop_unfold) simp
  next
    case pos: True
    show ?thesis
    proof (cases "best_opposite st sd")
      case None
      with pos show ?thesis by (subst market_loop_unfold) simp
    next
      case (Some b)
      from best_opposite_level_cond[OF less.prems Some pos] obtain lvl where
        c: "level_cond st (opposite sd) b q" and lvl: "priceMap (tree st (opposite sd)) b = Some lvl"
        by auto
      from process_price_level_returns[OF less.prems, of "opposite sd" b q tq "[]"] c
      obtain q1 nt st1 where
        p: "process_price_level st (opposite sd) b q tq [] = Some (q1, nt, st1)" and q1: "q1 < q"
        by blast
      from q1 pos have "nat q1 < nat q" by simp
      from less.hyps[OF this book_ok_process_price_level[OF p less.prems], of "tr @ nt"]
      obtain q' tr' st' where
        "market_loop st1 sd q1 tq (tr @ nt) = Some (Inr (q', tr'), st')" by blast
      with pos Some lvl p show ?thesis
        by (subst market_loop_unfold) simp
    qed
  qed
qed

lemma rest_order_returns:
  "q_idNum qt \<noteq> None \<Longrightarrow> q_timestamp qt \<noteq> None \<Longrightarrow>
   \<exists>trades ro st'. rest_order st qt p q tr = (Inr (trades, ro), st')"
  by (auto simp: rest_order_def Let_def split: option.splits)

text \<open>
  On a well-formed book a market order, and a limit order that carries a price, returns:
  the loops end and nothing is raised.
\<close>

lemma processOrder_returns:
  assumes "book_ok st" "q_type qt = Market \<or> q_price qt \<noteq> None"
  shows "\<exists>trades ro st'. processOrder st qt = Some (Inr (trades, ro), st')"
proof -
  let ?st2 = "counters_advanced st qt"
  let ?qt = "qt\<lparr>q_timestamp := Some (case q_timestamp qt of None \<Rightarrow> time st | Some t \<Rightarrow> t),
               q_idNum := Some (case q_idNum qt of None \<Rightarrow> nextQuoteID st | Some j \<Rightarrow> j)\<rparr>"
  have ok: "book_ok ?st2" using assms(1) by simp
  show ?thesis
  proof (cases "q_type qt")
    case Market
    from market_loop_returns[OF ok, of "q_side qt" "q_qty qt" ?qt "[]"] Market
    show ?thesis
      by (auto simp: processOrder_market process_market_def)
  next
    case Limit
    with assms(2) obtain lim where lim: "q_price qt = Some lim" by auto
    have sides: "side_ok (asks ?st2)" "side_ok (bids ?st2)"
      using ok by (simp_all add: book_ok_def)
    have d: "sum_depth_fok ?st2 (q_side qt) lim = Inr (visible_depth ?st2 (q_side qt) lim)"
      by (rule sum_depth_fok_visible[OF sides])
    have "\<exists>trades ro st'. process_limit ?st2 ?qt = Some (Inr (trades, ro), st')"
    proof (cases "post_only_guard ?st2 ?qt lim")
      case None
      with lim d show ?thesis by (simp add: process_limit_def)
    next
      case (Some p)
      from limit_loop_returns[OF ok, of "q_side qt" p "q_qty qt" ?qt "[]"]
      obtain ql tr1 st1 where l: "limit_loop ?st2 (q_side qt) p (q_qty qt) ?qt [] = Some (Inr (ql, tr1), st1)"
        by blast
      from rest_order_returns[of ?qt st1 p ql tr1]
      obtain trades ro st' where "rest_order st1 ?qt p ql tr1 = (Inr (trades, ro), st')"
        by auto
      with lim d Some l show ?thesis by (simp add: process_limit_def)
    qed
    then show ?thesis by (simp add: processOrder_limit'[OF Limit lim])
  qed
qed

subsection \<open>Object identity in the id index\<close>

text \<open>
  Two orders resting under the same caller-supplied id are two objects. The id index holds
  the one inserted last, so a partial fill of the first leaves the index entry as it is:
  after two asks of 5 at 101, both with id 7, and a market bid of 2, the queue holds 3
  and 5 and the index entry for 7 still has quantity 5.
\<close>

lemma same_id_two_objects:
  "Option.bind (processOrder new_book ((limit_quote Ask 5 101 1)\<lparr>q_idNum := Some 7, q_timestamp := Some 0\<rparr>))
     (\<lambda>r1. Option.bind
        (processOrder (snd r1) ((limit_quote Ask 5 101 1)\<lparr>q_idNum := Some 7, q_timestamp := Some 0\<rparr>))
        (\<lambda>r2. map_option
           (\<lambda>r3. (map qty (queue_at (asks (snd r3)) 101),
                  map_option qty (orderMap (asks (snd r3)) 7)))
           (processOrder (snd r2) (market_quote Bid 2 9)))) =
   Some ([3, 5], Some 5)"
  by code_simp

lemma index_follows_fill:
  "Option.bind (processOrder new_book ((limit_quote Ask 5 101 1)\<lparr>q_idNum := Some 7, q_timestamp := Some 0\<rparr>))
     (\<lambda>r1. map_option
        (\<lambda>r2. (map qty (queue_at (asks (snd r2)) 101),
               map_option qty (orderMap (asks (snd r2)) 7)))
        (processOrder (snd r1) (market_quote Bid 2 9))) =
   Some ([3], Some 3)"
  by code_simp

subsection \<open>Books whose resting quantities are not zero\<close>

lemma side_ok_nz: "side_ok bs \<Longrightarrow> side_nz bs"
  by (fastforce simp: side_ok_def side_nz_def level_ok_def level_nz_def)

lemma book_ok_nz: "book_ok st \<Longrightarrow> book_nz st"
  by (fastforce simp: book_ok_def book_nz_def side_ok_nz registry_ok_def registry_nz_def)

lemma new_book_nz: "book_nz new_book"
  by (rule book_ok_nz[OF new_book_ok])

lemma side_nz_levels_consistent: "side_nz bs \<Longrightarrow> levels_consistent bs"
  by (auto simp: side_nz_def levels_consistent_def level_nz_def)

lemma levels_consistent_index_only [simp]:
  "levels_consistent (bs\<lparr>orderMap := om\<rparr>) = levels_consistent bs"
  "levels_consistent (bs\<lparr>nOrders := n\<rparr>) = levels_consistent bs"
  "levels_consistent (bs\<lparr>prices := ps\<rparr>) = levels_consistent bs"
  by (simp_all add: levels_consistent_def)

lemma levels_consistent_insert_order:
  "levels_consistent bs \<Longrightarrow> levels_consistent (insert_order bs ord)"
  by (auto simp: levels_consistent_def insert_order_def ensure_level_def append_order_def
      new_level_def split: option.splits if_splits)

lemma side_nz_index_only [simp]:
  "side_nz (bs\<lparr>orderMap := om\<rparr>) = side_nz bs"
  "side_nz (bs\<lparr>nOrders := n\<rparr>) = side_nz bs"
  by (simp_all add: side_nz_def)

lemma side_nz_same_levels:
  "priceMap bs' = priceMap bs \<Longrightarrow> prices bs' = prices bs \<Longrightarrow> side_nz bs' = side_nz bs"
  by (simp add: side_nz_def)

lemma side_nz_level: "side_nz bs \<Longrightarrow> priceMap bs p = Some lvl \<Longrightarrow> level_nz p lvl"
  by (simp add: side_nz_def)

lemma side_nz_update_level:
  assumes "side_nz bs" "priceMap bs p = Some lvl" "level_nz p lvl'"
  shows "side_nz (bs\<lparr>priceMap := (priceMap bs)(p \<mapsto> lvl')\<rparr>)"
proof -
  from assms(2) have "insert p (dom (priceMap bs)) = dom (priceMap bs)" by auto
  with assms(1,3) show ?thesis by (auto simp: side_nz_def)
qed

lemma side_nz_remove_level:
  assumes "side_nz bs"
  shows "side_nz (bs\<lparr>priceMap := (priceMap bs)(p := None), prices := remove1 p (prices bs)\<rparr>)"
  using assms by (auto simp: side_nz_def sorted_remove1)

lemma level_nz_append:
  "level_nz p lvl \<Longrightarrow> qty ord \<noteq> 0 \<Longrightarrow> level_nz p (append_order lvl ord)"
  by (auto simp: level_nz_def append_order_def)

lemma level_nz_new_append:
  "qty ord \<noteq> 0 \<Longrightarrow> level_nz p (append_order (new_level p) ord)"
  by (auto simp: level_nz_def append_order_def new_level_def)

lemma side_nz_insert_order:
  assumes "side_nz bs" "qty ord \<noteq> 0"
  shows "side_nz (insert_order bs ord)"
proof (cases "priceMap bs (price ord)")
  case None
  with assms(1) have "price ord \<notin> set (prices bs)"
    by (auto simp: side_nz_def)
  with assms None show ?thesis
    by (auto simp: side_nz_def insert_order_def ensure_level_def sorted_insert_price
        distinct_insert_price level_nz_new_append)
next
  case (Some lvl)
  from side_nz_update_level[OF assms(1) Some level_nz_append[OF side_nz_level[OF assms(1) Some] assms(2)]]
  show ?thesis
    using Some by (simp add: insert_order_def ensure_level_def)
qed

lemma side_nz_prune_if_empty:
  assumes "side_nz (bs\<lparr>priceMap := (priceMap bs)(p := None), prices := remove1 p (prices bs)\<rparr>)"
    and "\<And>lvl. priceMap bs p = Some lvl \<Longrightarrow> queue lvl \<noteq> [] \<Longrightarrow> side_nz bs"
    and "priceMap bs p = None \<Longrightarrow> side_nz bs"
  shows "side_nz (prune_if_empty bs p)"
  using assms by (auto simp: prune_if_empty_def is_empty_def split: option.splits)

lemma scan_queue_level_nz:
  assumes "level_nz p lvl" "scan_queue i (queue lvl) [] False (volume lvl) = (newq, vol)"
    and "newq \<noteq> []"
  shows "level_nz p (lvl\<lparr>queue := newq, volume := vol\<rparr>)"
proof (cases "find (\<lambda>ord. idNum ord = i) (queue lvl)")
  case None
  with assms(2) have "newq = queue lvl" "vol = volume lvl"
    by (simp_all add: scan_queue_spec)
  with assms(1) show ?thesis by simp
next
  case (Some x)
  let ?P = "\<lambda>ord. idNum ord \<noteq> i"
  let ?q = "queue lvl"
  from find_dropWhile[OF Some] have ne: "dropWhile ?P ?q \<noteq> []" and hd: "hd (dropWhile ?P ?q) = x"
    by simp_all
  have q: "?q = takeWhile ?P ?q @ x # tl (dropWhile ?P ?q)"
    using ne hd by (metis hd_Cons_tl takeWhile_dropWhile_id)
  have nq: "newq = takeWhile ?P ?q @ tl (dropWhile ?P ?q)" and v: "vol = volume lvl - qty x"
    using assms(2) Some by (simp_all add: scan_queue_spec)
  have "sum_list (map qty ?q) = sum_list (map qty newq) + qty x"
    by (subst q) (simp add: nq)
  moreover have "set (tl (dropWhile ?P ?q)) \<subseteq> set ?q"
    using ne by (metis list.set_sel(2) set_dropWhileD subsetI)
  then have "set newq \<subseteq> set ?q"
    unfolding nq by (auto dest: set_takeWhileD)
  ultimately show ?thesis
    using assms(1,3) v by (auto simp: level_nz_def)
qed

lemma side_nz_remove_by_id:
  assumes "side_nz bs" "remove_by_id bs i = Inr (ord, bs')"
  shows "side_nz bs'"
proof -
  from assms(2) obtain o1 where om: "orderMap bs i = Some o1"
    by (auto simp: remove_by_id_def split: option.splits)
  let ?p = "price o1"
  let ?bs1 = "bs\<lparr>orderMap := (orderMap bs)(i := None)\<rparr>"
  show ?thesis
  proof (cases "priceMap bs ?p")
    case None
    with assms om show ?thesis
      by (auto simp: remove_by_id_def Let_def)
  next
    case (Some lvl)
    obtain newq vol where sq: "scan_queue i (queue lvl) [] False (volume lvl) = (newq, vol)"
      by (cases "scan_queue i (queue lvl) [] False (volume lvl)") auto
    let ?bs2 = "?bs1\<lparr>priceMap := (priceMap ?bs1)(?p \<mapsto> lvl\<lparr>queue := newq, volume := vol\<rparr>)\<rparr>"
    have bs': "bs' = (prune_if_empty ?bs2 ?p)\<lparr>nOrders := nOrders (prune_if_empty ?bs2 ?p) - 1\<rparr>"
      using assms(2) om Some sq by (auto simp: remove_by_id_def Let_def)
    have "side_nz (prune_if_empty ?bs2 ?p)"
    proof (rule side_nz_prune_if_empty)
      show "side_nz (?bs2\<lparr>priceMap := (priceMap ?bs2)(?p := None), prices := remove1 ?p (prices ?bs2)\<rparr>)"
        using side_nz_remove_level[OF assms(1), of ?p]
        by (subst side_nz_same_levels[where bs = "bs\<lparr>priceMap := (priceMap bs)(?p := None), prices := remove1 ?p (prices bs)\<rparr>"]) simp_all
    next
      fix l assume "priceMap ?bs2 ?p = Some l" "queue l \<noteq> []"
      then have "newq \<noteq> []" by auto
      from scan_queue_level_nz[OF side_nz_level[OF assms(1) Some] sq this]
      have "side_nz (bs\<lparr>priceMap := (priceMap bs)(?p \<mapsto> lvl\<lparr>queue := newq, volume := vol\<rparr>)\<rparr>)"
        by (rule side_nz_update_level[OF assms(1) Some])
      then show "side_nz ?bs2"
        by (subst side_nz_same_levels[where bs = "bs\<lparr>priceMap := (priceMap bs)(?p \<mapsto> lvl\<lparr>queue := newq, volume := vol\<rparr>)\<rparr>"]) simp_all
    next
      assume "priceMap ?bs2 ?p = None"
      then show "side_nz ?bs2" by simp
    qed
    with bs' show ?thesis by simp
  qed
qed

lemma book_nz_set_tree:
  "book_nz st \<Longrightarrow> side_nz bs' \<Longrightarrow> book_nz (set_tree st s bs')"
  by (cases s) (simp_all add: book_nz_def set_tree_def)

lemma book_nz_tree: "book_nz st \<Longrightarrow> side_nz (tree st s)"
  by (simp add: book_nz_def tree_def)

lemma book_nz_other_fields [simp]:
  "book_nz (st\<lparr>tape := tp\<rparr>) = book_nz st"
  "book_nz (st\<lparr>time := tm\<rparr>) = book_nz st"
  "book_nz (st\<lparr>nextQuoteID := n\<rparr>) = book_nz st"
  "book_nz (st\<lparr>nextRef := k\<rparr>) = book_nz st"
  by (simp_all add: book_nz_def)

lemma book_nz_record_trade [simp]: "book_nz (record_trade st q p t m) = book_nz st"
  by (simp add: record_trade_def)

lemma book_nz_counters_advanced [simp]: "book_nz (counters_advanced st qt) = book_nz st"
  by (simp add: counters_advanced_def split: option.splits)

lemma book_nz_set_tree_again:
  "book_nz st \<Longrightarrow> side_nz bs3 \<Longrightarrow>
   book_nz (set_tree (record_trade (set_tree st s bs1) a b c d) s bs3)"
  by (cases s) (simp_all add: book_nz_def set_tree_def record_trade_def)

lemma registry_nz_update:
  "registry_nz reg \<Longrightarrow> display info \<noteq> 0 \<Longrightarrow> registry_nz (reg(i \<mapsto> info))"
  by (simp add: registry_nz_def)

lemma book_nz_icebergs:
  "book_nz st \<Longrightarrow> registry_nz reg \<Longrightarrow> book_nz (st\<lparr>icebergs := reg\<rparr>)"
  by (simp add: book_nz_def)

lemma book_nz_replenish:
  assumes "book_nz st"
  shows "book_nz (iceberg_replenish_if_needed st s r)"
proof (cases "icebergs st (idNum r)")
  case None
  with assms show ?thesis
    by (simp add: iceberg_replenish_if_needed_def Let_def book_nz_def registry_nz_def)
next
  case (Some info)
  from assms have reg: "registry_nz (icebergs st)" by (simp add: book_nz_def)
  with Some have d: "display info \<noteq> 0" by (simp add: registry_nz_def)
  have reg1: "registry_nz ((icebergs st)(idNum r := None))"
    using reg by (simp add: registry_nz_def)
  let ?st1 = "st\<lparr>icebergs := (icebergs st)(idNum r := None)\<rparr>"
  have ok1: "book_nz ?st1" by (rule book_nz_icebergs[OF assms reg1])
  show ?thesis
  proof (cases "remaining info \<le> 0")
    case True
    with Some ok1 show ?thesis
      by (simp add: iceberg_replenish_if_needed_def Let_def)
  next
    case False
    let ?clip = "min (display info) (remaining info)"
    let ?ord = "\<lparr>idNum = nextQuoteID st, tid = ib_tid info, price = ib_price info,
                 qty = ?clip, timestamp = time st, ref = nextRef st\<rparr>"
    let ?st3 = "(set_tree ?st1 s (insert_order (tree st s) ?ord))
                  \<lparr>nextQuoteID := nextQuoteID st + 1, nextRef := Suc (nextRef st)\<rparr>"
    from d False have c: "?clip \<noteq> 0" by (simp add: min_def)
    have "side_nz (insert_order (tree st s) ?ord)"
      by (rule side_nz_insert_order[OF book_nz_tree[OF assms]]) (use c in simp)
    from book_nz_set_tree[OF ok1 this] have ok3: "book_nz ?st3" by simp
    then have reg3: "registry_nz (icebergs ?st3)" by (simp add: book_nz_def)
    have ok4: "book_nz (?st3\<lparr>icebergs := (icebergs ?st3)(nextQuoteID st \<mapsto>
                 info\<lparr>remaining := remaining info - ?clip\<rparr>)\<rparr>)"
      by (rule book_nz_icebergs[OF ok3 registry_nz_update[OF reg3]]) (use d in simp)
    have eq: "iceberg_replenish_if_needed st s r =
            (if 0 < remaining info - ?clip
             then ?st3\<lparr>icebergs := (icebergs ?st3)(nextQuoteID st \<mapsto>
                    info\<lparr>remaining := remaining info - ?clip\<rparr>)\<rparr>
             else ?st3)"
      using Some False unfolding iceberg_replenish_if_needed_def Let_def
      by (cases s) (simp_all add: set_tree_def tree_def del: min_less_iff_conj)
    show ?thesis
    proof (cases "0 < remaining info - ?clip")
      case True
      with eq have "iceberg_replenish_if_needed st s r =
          ?st3\<lparr>icebergs := (icebergs ?st3)(nextQuoteID st \<mapsto>
                    info\<lparr>remaining := remaining info - ?clip\<rparr>)\<rparr>"
        by (simp only: if_True)
      with ok4 show ?thesis by (simp only:)
    next
      case False
      with eq have "iceberg_replenish_if_needed st s r = ?st3"
        by (simp only: if_False)
      with ok3 show ?thesis by (simp only:)
    qed
  qed
qed

text \<open>
  What \<open>consume_head\<close> does to such a level when something is needed: a head of negative
  quantity is taken whole.
\<close>

lemma consume_head_nz:
  assumes "level_nz p lvl" "0 < need" "consume_head lvl need = (taken, removed, lvl')"
  shows "taken \<noteq> 0 \<and> lv_price lvl' = p \<and>
         (queue lvl' \<noteq> [] \<longrightarrow> level_nz p lvl') \<and>
         (removed = None \<longrightarrow> queue lvl' \<noteq> [])"
proof -
  from assms(1) obtain h rest where q: "queue lvl = h # rest"
    by (cases "queue lvl") (auto simp: level_nz_def)
  with assms(1) have h: "qty h \<noteq> 0" and vol: "volume lvl = qty h + sum_list (map qty rest)"
    and rest: "\<forall>x \<in> set rest. qty x \<noteq> 0" and lp: "lv_price lvl = p"
    by (simp_all add: level_nz_def)
  show ?thesis
  proof (cases "need < qty h")
    case True
    from consume_head_partial[OF q assms(2) True] assms(3)
    have "taken = need" "removed = None"
      "lvl' = lvl\<lparr>queue := h\<lparr>qty := qty h - need\<rparr> # rest, volume := volume lvl - need\<rparr>"
      by simp_all
    with True assms(2) vol rest lp show ?thesis
      by (simp add: level_nz_def)
  next
    case False
    then have "qty h \<le> need" by simp
    from consume_head_full[OF q assms(2) this] assms(3)
    have "taken = qty h" "removed \<noteq> None"
      "lvl' = lvl\<lparr>queue := rest, volume := volume lvl - qty h\<rparr>"
      by simp_all
    with False h vol rest lp show ?thesis
      by (auto simp: level_nz_def)
  qed
qed

lemma book_nz_level_iter:
  assumes ok: "book_nz st" and c: "level_cond st s p q"
    and li: "level_iter st s p q tq tr = (lv, q', tr', st')"
  shows "book_nz st'"
proof -
  from c obtain lvl where lvl: "priceMap (tree st s) p = Some lvl" and pos: "0 < q"
    by (auto simp: level_cond_def split: option.splits)
  have sok: "side_nz (tree st s)" by (rule book_nz_tree[OF ok])
  have lok: "level_nz p lvl" by (rule side_nz_level[OF sok lvl])
  obtain taken removed lvl' where ch: "consume_head lvl q = (taken, removed, lvl')"
    by (cases "consume_head lvl q") auto
  from consume_head_nz[OF lok pos ch] have
    t: "taken \<noteq> 0" and lp: "lv_price lvl' = p" and
    nl: "queue lvl' \<noteq> [] \<Longrightarrow> level_nz p lvl'" and rn: "removed = None \<Longrightarrow> queue lvl' \<noteq> []"
    by simp_all
  define om where "om = (case queue lvl of [] \<Rightarrow> orderMap (tree st s)
                        | h # _ \<Rightarrow> sync_order (orderMap (tree st s)) h (h\<lparr>qty := qty h - taken\<rparr>))"
  define bs1 where "bs1 = (tree st s)\<lparr>priceMap := (priceMap (tree st s))(p \<mapsto> lvl'), orderMap := om\<rparr>"
  define st2 where "st2 = record_trade (set_tree st s bs1) taken (lv_price lvl') (q_tid tq)
      (case removed of Some r \<Rightarrow> tid r
       | None \<Rightarrow> (case head lvl' of Some h \<Rightarrow> tid h | None \<Rightarrow> q_tid tq))"
  have side1: "side_nz bs1" if "queue lvl' \<noteq> []"
  proof -
    have "side_nz ((tree st s)\<lparr>priceMap := (priceMap (tree st s))(p \<mapsto> lvl')\<rparr>)"
      by (rule side_nz_update_level[OF sok lvl nl[OF that]])
    then show ?thesis
      by (subst side_nz_same_levels[where bs = "(tree st s)\<lparr>priceMap := (priceMap (tree st s))(p \<mapsto> lvl')\<rparr>"])
         (simp_all add: bs1_def)
  qed
  show ?thesis
  proof (cases removed)
    case None
    from li lvl ch t None have "st' = st2"
      by (simp add: level_iter_def Let_def st2_def bs1_def om_def)
    with side1[OF rn[OF None]] ok show ?thesis
      by (simp add: st2_def book_nz_set_tree)
  next
    case (Some r)
    define bs3 where "bs3 = (if is_empty lvl' then drop_level (forget_order (tree st2 s) (idNum r)) (lv_price lvl')
                             else forget_order (tree st2 s) (idNum r))"
    from li lvl ch t Some have st': "st' = iceberg_replenish_if_needed (set_tree st2 s bs3) s r"
      by (auto simp: level_iter_def Let_def st2_def bs1_def om_def bs3_def)
    have t2: "tree st2 s = bs1"
      by (simp add: st2_def record_trade_def)
    have "side_nz bs3"
    proof (cases "queue lvl' = []")
      case False
      with side1 show ?thesis
        by (simp add: bs3_def t2 is_empty_def forget_order_def)
    next
      case True
      have "side_nz ((tree st s)\<lparr>priceMap := (priceMap (tree st s))(p := None),
                                prices := remove1 p (prices (tree st s))\<rparr>)"
        by (rule side_nz_remove_level[OF sok])
      then show ?thesis
        by (subst side_nz_same_levels[where bs = "(tree st s)\<lparr>priceMap := (priceMap (tree st s))(p := None),
                                prices := remove1 p (prices (tree st s))\<rparr>"])
           (simp_all add: bs3_def t2 True is_empty_def forget_order_def drop_level_def bs1_def lp)
    qed
    with ok have "book_nz (set_tree st2 s bs3)"
      unfolding st2_def by (rule book_nz_set_tree_again)
    then show ?thesis
      unfolding st' by (rule book_nz_replenish)
  qed
qed

lemma book_nz_process_price_level:
  assumes "process_price_level st s p q tq tr = Some (q', tr', st')" "book_nz st"
  shows "book_nz st'"
  by (rule process_price_level_invariant[where I = "\<lambda>st q tr. book_nz st", OF assms])
     (rule book_nz_level_iter)

lemma book_nz_limit_loop:
  assumes "limit_loop st sd lim q tq tr = Some (res, st')" "book_nz st"
  shows "book_nz st'"
proof -
  have "case res of Inl e \<Rightarrow> (\<exists>(q'::int) (tr'::trade list). book_nz st')
          | Inr (q', tr') \<Rightarrow> book_nz st'"
    by (rule limit_loop_invariant[where I = "\<lambda>st q tr. book_nz st", OF assms])
       (auto intro: book_nz_process_price_level)
  then show ?thesis by (cases res) auto
qed

lemma book_nz_market_loop:
  assumes "market_loop st sd q tq tr = Some (res, st')" "book_nz st"
  shows "book_nz st'"
proof -
  have "case res of Inl e \<Rightarrow> (\<exists>(q'::int) (tr'::trade list). book_nz st')
          | Inr (q', tr') \<Rightarrow> book_nz st'"
    by (rule market_loop_invariant[where I = "\<lambda>st q tr. book_nz st", OF assms])
       (auto intro: book_nz_process_price_level)
  then show ?thesis by (cases res) auto
qed

text \<open>
  The resting step inserts at most one order. Whatever its quantity, the levels stay
  consistent; the conditions on the quantities are kept when the first clip is not zero.
\<close>

lemma rest_order_sides:
  assumes "rest_order st qt p q tr = (res, st')"
  shows "(tree st' (q_side qt) = tree st (q_side qt) \<or>
          (\<exists>ord. tree st' (q_side qt) = insert_order (tree st (q_side qt)) ord \<and>
                 qty ord = (case (iceberg_total qt, iceberg_display qt) of
                              (Some t, Some d) \<Rightarrow> min d (min t q)
                            | _ \<Rightarrow> q) \<and> 0 < q)) \<and>
         tree st' (opposite (q_side qt)) = tree st (opposite (q_side qt))"
  using assms
  by (auto simp: rest_order_def Let_def opposite_def split: option.splits if_splits)

lemma levels_consistent_rest_order:
  assumes "levels_consistent (bids st)" "levels_consistent (asks st)"
    and "rest_order st qt p q tr = (res, st')"
  shows "levels_consistent (bids st') \<and> levels_consistent (asks st')"
proof -
  have a: "levels_consistent (tree st s)" for s
    using assms(1,2) by (simp add: tree_def)
  from rest_order_sides[OF assms(3)] a[of "q_side qt"] a[of "opposite (q_side qt)"]
  have "levels_consistent (tree st' (q_side qt))" "levels_consistent (tree st' (opposite (q_side qt)))"
    by (auto intro: levels_consistent_insert_order)
  then show ?thesis
    by (cases "q_side qt") (simp_all add: tree_def opposite_def)
qed

lemma book_nz_rest_order:
  assumes "book_nz st" "iceberg_clip_nz qt" "rest_order st qt p q tr = (res, st')"
  shows "book_nz st'"
proof (cases "q_tif qt = IOC \<or> q \<le> 0 \<or> q_idNum qt = None \<or> q_timestamp qt = None")
  case True
  with assms(1,3) show ?thesis
    by (auto simp: rest_order_def split: option.splits if_splits)
next
  case False
  then obtain i ts where f: "q_tif qt \<noteq> IOC" "0 < q" "q_idNum qt = Some i" "q_timestamp qt = Some ts"
    by auto
  have ins: "book_nz (set_tree st (q_side qt) (insert_order (tree st (q_side qt)) ord))"
    if "qty ord \<noteq> 0" for ord
    by (rule book_nz_set_tree[OF assms(1) side_nz_insert_order[OF book_nz_tree[OF assms(1)] that]])
  show ?thesis
  proof (cases "iceberg_total qt")
    case None
    with assms(3) f ins[of "\<lparr>idNum = i, tid = q_tid qt, price = p, qty = q, timestamp = ts, ref = nextRef st\<rparr>"]
    show ?thesis by (auto simp: rest_order_def Let_def)
  next
    case t: (Some t)
    show ?thesis
    proof (cases "iceberg_display qt")
      case None
      with assms(3) f t ins[of "\<lparr>idNum = i, tid = q_tid qt, price = p, qty = q, timestamp = ts, ref = nextRef st\<rparr>"]
      show ?thesis by (auto simp: rest_order_def Let_def)
    next
      case (Some d)
      with assms(2) t have d: "min d t \<noteq> 0"
        by (simp add: iceberg_clip_nz_def)
      let ?clip = "min d (min t q)"
      let ?ord = "\<lparr>idNum = i, tid = q_tid qt, price = p, qty = ?clip, timestamp = ts, ref = nextRef st\<rparr>"
      let ?st1 = "(set_tree st (q_side qt) (insert_order (tree st (q_side qt)) ?ord))
                    \<lparr>nextRef := Suc (nextRef st)\<rparr>"
      from d f have c: "?clip \<noteq> 0" by (simp add: min_def split: if_splits)
      from d f have dn: "0 < t - ?clip \<Longrightarrow> d \<noteq> 0" by (simp add: min_def split: if_splits)
      from ins[of ?ord] c have ok1: "book_nz ?st1" by simp
      then have reg: "registry_nz (icebergs ?st1)" by (simp add: book_nz_def)
      have ok2: "book_nz (?st1\<lparr>icebergs := (icebergs ?st1)(i \<mapsto>
                   \<lparr>ib_price = p, display = d, remaining = t - ?clip, ib_tid = q_tid qt\<rparr>)\<rparr>)"
        if "0 < t - ?clip"
        by (rule book_nz_icebergs[OF ok1 registry_nz_update[OF reg]]) (use dn that in simp)
      have "st' = (if 0 < t - ?clip
                   then ?st1\<lparr>icebergs := (icebergs ?st1)(i \<mapsto>
                          \<lparr>ib_price = p, display = d, remaining = t - ?clip, ib_tid = q_tid qt\<rparr>)\<rparr>
                   else ?st1)"
        using assms(3) f t Some unfolding rest_order_def Let_def
        by (auto simp del: min_less_iff_conj)
      with ok1 ok2 show ?thesis by (simp del: min_less_iff_conj split: if_splits)
    qed
  qed
qed

lemma process_limit_cases:
  assumes "process_limit st qt = Some (res, st')"
  obtains
      (same) "st' = st"
    | (loop_err) p e where "limit_loop st (q_side qt) p (q_qty qt) qt [] = Some (Inl e, st')"
    | (rest) p ql trades st1 where
        "limit_loop st (q_side qt) p (q_qty qt) qt [] = Some (Inr (ql, trades), st1)"
        "rest_order st1 qt p ql trades = (res, st')"
  using assms
  by (auto simp: process_limit_def split: option.splits sum.splits if_splits prod.splits)

lemma book_nz_lc:
  "book_nz st \<Longrightarrow> levels_consistent (bids st) \<and> levels_consistent (asks st)"
  by (simp add: book_nz_def side_nz_levels_consistent)

lemma nz_process_limit:
  assumes "process_limit st qt = Some (res, st')" "book_nz st"
  shows "levels_consistent (bids st') \<and> levels_consistent (asks st') \<and>
         (iceberg_clip_nz qt \<longrightarrow> book_nz st')"
  using assms(1)
proof (cases rule: process_limit_cases)
  case same
  with assms(2) show ?thesis by (simp add: book_nz_lc)
next
  case (loop_err p e)
  from book_nz_limit_loop[OF this assms(2)] show ?thesis by (simp add: book_nz_lc)
next
  case (rest p ql trades st1)
  from book_nz_limit_loop[OF rest(1) assms(2)] have ok1: "book_nz st1" .
  from levels_consistent_rest_order[OF _ _ rest(2)] book_nz_lc[OF ok1]
  have "levels_consistent (bids st') \<and> levels_consistent (asks st')" by blast
  with book_nz_rest_order[OF ok1 _ rest(2)] show ?thesis by blast
qed

lemma book_nz_process_market:
  assumes "process_market st qt = Some (res, st')" "book_nz st"
  shows "book_nz st'"
proof -
  from assms(1) obtain r where "market_loop st (q_side qt) (q_qty qt) qt [] = Some (r, st')"
    by (auto simp: process_market_def split: option.splits sum.splits prod.splits)
  from book_nz_market_loop[OF this assms(2)] show ?thesis .
qed

lemma iceberg_clip_nz_stamped [simp]:
  "iceberg_clip_nz (qt\<lparr>q_timestamp := a, q_idNum := b\<rparr>) = iceberg_clip_nz qt"
  by (simp add: iceberg_clip_nz_def)

lemma nz_processOrder:
  assumes "processOrder st qt = Some (res, st')" "book_nz st"
  shows "levels_consistent (bids st') \<and> levels_consistent (asks st') \<and>
         (iceberg_clip_nz qt \<longrightarrow> book_nz st')"
proof (cases "q_type qt")
  case Market
  with assms(1) obtain r where
    "process_market (counters_advanced st qt)
       (qt\<lparr>q_timestamp := Some (case q_timestamp qt of None \<Rightarrow> time st | Some t \<Rightarrow> t),
           q_idNum := Some (case q_idNum qt of None \<Rightarrow> nextQuoteID st | Some j \<Rightarrow> j)\<rparr>) = Some (r, st')"
    by (auto simp: processOrder_market split: option.splits sum.splits prod.splits)
  from book_nz_process_market[OF this] assms(2) have "book_nz st'" by simp
  then show ?thesis by (simp add: book_nz_lc)
next
  case Limit
  show ?thesis
  proof (cases "q_price qt")
    case None
    with Limit assms(1) have "st' = counters_advanced st qt"
      by (auto simp: processOrder_def Let_def counters_advanced_def split: option.splits)
    with assms(2) show ?thesis by (simp add: book_nz_lc)
  next
    case (Some lim)
    from assms(1) have
      "process_limit (counters_advanced st qt)
         (qt\<lparr>q_timestamp := Some (case q_timestamp qt of None \<Rightarrow> time st | Some t \<Rightarrow> t),
             q_idNum := Some (case q_idNum qt of None \<Rightarrow> nextQuoteID st | Some j \<Rightarrow> j)\<rparr>) = Some (res, st')"
      by (simp add: processOrder_limit'[OF Limit Some])
    from nz_process_limit[OF this] assms(2) show ?thesis by simp
  qed
qed

subsection \<open>A resting order of quantity zero\<close>

text \<open>
  The book that holds the zero clip of the iceberg with display size 0, before and after
  \<open>_process_price_level\<close> has run on its level. A market order whose best opposite level
  has an empty queue, or a single order of quantity zero, does not return: each pass
  finds the same best tick and takes nothing.
\<close>

lemma zero_clip_before:
  "map_option (\<lambda>st. (prices (bids st), map_option (map qty \<circ> queue) (priceMap (bids st) 101)))
     zero_clip_book = Some ([101], Some [0])"
  by code_simp

lemma zero_clip_after:
  "map_option (\<lambda>st. (prices (bids st), map_option queue (priceMap (bids st) 101)))
     after_zero_take = Some ([101], Some [])"
  by code_simp

lemma process_price_level_empty:
  "priceMap (tree st s) p = Some lvl \<Longrightarrow> queue lvl = [] \<Longrightarrow>
   process_price_level st s p q tq tr = Some (q, tr, st)"
  by (subst process_price_level.simps) (simp add: level_cond_def is_empty_def)

lemma market_loop_empty_level:
  assumes "0 < q" "best_opposite st sd = Some p"
    and "priceMap (tree st (opposite sd)) p = Some lvl" "queue lvl = []"
  shows "market_loop st sd q qt tr = None"
proof (rule ccontr)
  assume "market_loop st sd q qt tr \<noteq> None"
  then obtain r where run: "market_loop st sd q qt tr = Some r" by auto
  define P where "P = (\<lambda>(st0::order_book) (sd0::side) (q0::int) (tq0::quote) (tr0::trade list)
      (r0::(error + int \<times> trade list) \<times> order_book). \<not> (st0 = st \<and> sd0 = sd \<and> 0 < q0))"
  have "P st sd q qt tr r"
  proof (rule market_loop.raw_induct[where P = P, OF _ run])
    fix f st1 sd1 q1 tq1 tr1 r1
    assume ih: "\<And>st2 sd2 q2 tq2 tr2 r2. f st2 sd2 q2 tq2 tr2 = Some r2 \<Longrightarrow> P st2 sd2 q2 tq2 tr2 r2"
      and step2: "(if 0 < q1 then
        (if sd1 = Bid then
           (case getBestAsk st1 of
              None \<Rightarrow> Some (Inr (q1, tr1), st1)
            | Some best_ask \<Rightarrow>
                (case priceMap (asks st1) best_ask of
                   None \<Rightarrow> Some (Inl KeyError, st1)
                 | Some lvl \<Rightarrow>
                     Option.bind (process_price_level st1 Ask best_ask q1 tq1 [])
                       (\<lambda>(qty', newTrades, st'). f st' sd1 qty' tq1 (tr1 @ newTrades))))
         else
           (case getBestBid st1 of
              None \<Rightarrow> Some (Inr (q1, tr1), st1)
            | Some best_bid \<Rightarrow>
                (case priceMap (bids st1) best_bid of
                   None \<Rightarrow> Some (Inl KeyError, st1)
                 | Some lvl \<Rightarrow>
                     Option.bind (process_price_level st1 Bid best_bid q1 tq1 [])
                       (\<lambda>(qty', newTrades, st'). f st' sd1 qty' tq1 (tr1 @ newTrades)))))
      else Some (Inr (q1, tr1), st1)) = Some r1"
    show "P st1 sd1 q1 tq1 tr1 r1"
      unfolding P_def
    proof
      assume a: "st1 = st \<and> sd1 = sd \<and> 0 < q1"
      have "f st sd q1 tq1 tr1 = Some r1"
        using step2 a assms(2,3)
          process_price_level_empty[OF assms(3,4), of q1 tq1 "[]"]
        by (cases sd) (simp_all add: best_opposite_def opposite_def tree_def)
      from ih[OF this] a show False by (simp add: P_def)
    qed
  qed
  with assms(1) show False by (simp add: P_def)
qed

lemma market_loop_zero_head:
  assumes "0 < q" "best_opposite st sd = Some p"
    and "priceMap (tree st (opposite sd)) p = Some lvl" "queue lvl = [h]" "qty h = 0"
  shows "market_loop st sd q qt tr = None"
proof -
  define st2 where "st2 = snd (snd (snd (level_iter st (opposite sd) p q qt [])))"
  have li: "level_iter st (opposite sd) p q qt [] = (True, q, [], st2)"
    unfolding st2_def using assms
    by (simp add: level_iter_def consume_head_def Let_def)
  have c: "level_cond st (opposite sd) p q"
    using assms by (simp add: level_cond_def is_empty_def)
  have ppl: "process_price_level st (opposite sd) p q qt [] = Some (q, [], st2)"
    by (subst process_price_level.simps) (simp add: c li)
  have b2: "best_opposite st2 sd = Some p"
    unfolding st2_def using assms
    by (cases sd)
       (simp_all add: level_iter_def consume_head_def Let_def best_opposite_def opposite_def
          getBestAsk_def getBestBid_def best_price_min_def best_price_max_def tree_def set_tree_def
          split: if_splits)
  have l2: "priceMap (tree st2 (opposite sd)) p = Some (lvl\<lparr>queue := [], volume := volume lvl\<rparr>)"
    unfolding st2_def using assms
    by (simp add: level_iter_def consume_head_def Let_def)
  have "market_loop st2 sd q qt (tr @ []) = None"
    by (rule market_loop_empty_level[OF assms(1) b2 l2]) simp
  then show ?thesis
    using assms(1,2,3) ppl
    by (subst market_loop.simps, cases sd)
       (simp_all add: best_opposite_def opposite_def tree_def)
qed

lemma zero_clip_sell_does_not_return:
  "Option.bind zero_clip_book (\<lambda>st. processOrder st (market_quote Ask 5 9)) = None"
proof -
  let ?q = "market_quote Ask 5 9"
  from zero_clip_before obtain st1 where z: "zero_clip_book = Some st1"
    and p: "prices (bids st1) = [101]"
    and l: "map_option (map qty \<circ> queue) (priceMap (bids st1) 101) = Some [0]"
    by auto
  from l obtain lvl h where lv: "priceMap (bids st1) 101 = Some lvl" "queue lvl = [h]" "qty h = 0"
    by auto
  have q: "q_type ?q = Market" "q_side ?q = Ask" "q_qty ?q = 5"
    by (simp_all add: market_quote_def)
  have "market_loop (counters_advanced st1 ?q) Ask 5
          (?q\<lparr>q_timestamp := Some (case q_timestamp ?q of None \<Rightarrow> time st1 | Some t \<Rightarrow> t),
              q_idNum := Some (case q_idNum ?q of None \<Rightarrow> nextQuoteID st1 | Some j \<Rightarrow> j)\<rparr>) [] = None"
    by (rule market_loop_zero_head[where p = 101 and lvl = lvl and h = h])
       (use p lv in \<open>simp_all add: best_opposite_def getBestBid_def best_price_max_def opposite_def tree_def\<close>)
  then have n: "processOrder st1 ?q = None"
    by (simp add: processOrder_market[OF q(1)] process_market_def q)
  show ?thesis
    unfolding z by (simp only: Option.bind.simps n)
qed

subsection \<open>The level invariant under the operations\<close>

text \<open>
  C8, as the claim states it, fails. An iceberg bid of 5 at 101 with display size 0 is
  accepted by an empty book and rests a visible order of quantity 0 (the level invariant
  still holds: one level at 101, its queue not empty, its volume 0). When a market sell
  order of 5 then consumes that level, \<open>consume_head\<close> takes 0 and removes the order, and
  \<open>_process_price_level\<close> leaves its loop on the zero take before the pruning: the level
  at 101 stays in the tick index with an empty queue.
\<close>

theorem zero_display_empty_level_counterexample:
  "map_option (\<lambda>st. (prices (bids st), map_option (map qty \<circ> queue) (priceMap (bids st) 101)))
     zero_clip_book = Some ([101], Some [0]) \<and>
   map_option (\<lambda>st. levels_consistent (bids st)) zero_clip_book = Some True \<and>
   map_option (\<lambda>st. (prices (bids st), map_option queue (priceMap (bids st) 101)))
     after_zero_take = Some ([101], Some []) \<and>
   map_option (\<lambda>st. levels_consistent (bids st)) after_zero_take = Some False"
proof -
  from zero_clip_before obtain st1 where z: "zero_clip_book = Some st1"
    by auto
  then obtain res where "processOrder new_book zero_display_bid = Some (res, st1)"
    by (auto simp: zero_clip_book_def)
  from nz_processOrder[OF this new_book_nz] have b: "levels_consistent (bids st1)"
    by simp
  from zero_clip_after obtain st2 lvl where a: "after_zero_take = Some st2"
    and l: "priceMap (bids st2) 101 = Some lvl" "queue lvl = []"
    by auto
  from l have n: "\<not> levels_consistent (bids st2)"
    by (auto simp: levels_consistent_def)
  have c2: "map_option (\<lambda>st. levels_consistent (bids st)) zero_clip_book = Some True"
    unfolding z using b by simp
  have c4: "map_option (\<lambda>st. levels_consistent (bids st)) after_zero_take = Some False"
    unfolding a using n by simp
  show ?thesis
    by (intro conjI zero_clip_before zero_clip_after c2 c4)
qed

text \<open>
  C8, amended. Take a book whose sides are well formed (ascending tick list matching the
  tick index, every level carrying its tick and a non-empty queue, its volume the sum of
  its orders' quantities) and in which no resting order has quantity zero and no registry
  entry has display size zero. Then every level of the tick index has a non-empty queue
  and a volume equal to the sum of its orders' quantities, and this still holds after
  every operation on a side: after the insertion of any order, after a removal by id,
  after an iceberg replenishment, after a pass of the matching loop over a level, after
  the whole of \<open>_process_price_level\<close>, and after every submission that returns. The
  conditions on the book are themselves kept by these operations, provided that an
  inserted order has a quantity other than zero and that a submitted iceberg has its
  display size and total such that the smaller of them is not zero. A submission to a
  well-formed book with positive resting quantities returns when it is a market order or
  carries a price.
\<close>

theorem level_invariant_preserved:
  assumes "book_nz st"
  shows "levels_consistent (bids st) \<and> levels_consistent (asks st) \<and>
         (\<forall>ord. levels_consistent (insert_order (tree st s) ord) \<and>
            (qty ord \<noteq> 0 \<longrightarrow> side_nz (insert_order (tree st s) ord))) \<and>
         (\<forall>i ord bs'. remove_by_id (tree st s) i = Inr (ord, bs') \<longrightarrow>
            side_nz bs' \<and> levels_consistent bs') \<and>
         (\<forall>r. book_nz (iceberg_replenish_if_needed st s r) \<and>
            levels_consistent (bids (iceberg_replenish_if_needed st s r)) \<and>
            levels_consistent (asks (iceberg_replenish_if_needed st s r))) \<and>
         (\<forall>p q tq tr leave q' tr' st'.
            level_cond st s p q \<and> level_iter st s p q tq tr = (leave, q', tr', st') \<longrightarrow>
            book_nz st' \<and> levels_consistent (bids st') \<and> levels_consistent (asks st')) \<and>
         (\<forall>p q tq tr q' tr' st'.
            process_price_level st s p q tq tr = Some (q', tr', st') \<longrightarrow>
            book_nz st' \<and> levels_consistent (bids st') \<and> levels_consistent (asks st')) \<and>
         (\<forall>qt res st'. processOrder st qt = Some (res, st') \<longrightarrow>
            levels_consistent (bids st') \<and> levels_consistent (asks st') \<and>
            (iceberg_clip_nz qt \<longrightarrow> book_nz st')) \<and>
         (book_ok st \<longrightarrow>
            (\<forall>qt. q_type qt = Market \<or> q_price qt \<noteq> None \<longrightarrow>
               (\<exists>res st'. processOrder st qt = Some (res, st'))))"
proof -
  have sok: "side_nz (tree st s)" by (rule book_nz_tree[OF assms])
  have lc: "levels_consistent (bids x) \<and> levels_consistent (asks x)" if "book_nz x" for x
    by (rule book_nz_lc[OF that])
  have c1: "levels_consistent (bids st)" "levels_consistent (asks st)"
    using lc[OF assms] by simp_all
  have c2: "\<forall>ord. levels_consistent (insert_order (tree st s) ord) \<and>
            (qty ord \<noteq> 0 \<longrightarrow> side_nz (insert_order (tree st s) ord))"
  proof (intro allI conjI impI)
    fix ord :: order
    show "levels_consistent (insert_order (tree st s) ord)"
      by (rule levels_consistent_insert_order[OF side_nz_levels_consistent[OF sok]])
    assume "qty ord \<noteq> 0"
    then show "side_nz (insert_order (tree st s) ord)"
      by (rule side_nz_insert_order[OF sok])
  qed
  have c3: "\<forall>i ord bs'. remove_by_id (tree st s) i = Inr (ord, bs') \<longrightarrow>
            side_nz bs' \<and> levels_consistent bs'"
  proof (intro allI impI)
    fix i ord bs' assume "remove_by_id (tree st s) i = Inr (ord, bs')"
    from side_nz_remove_by_id[OF sok this]
    show "side_nz bs' \<and> levels_consistent bs'"
      by (simp add: side_nz_levels_consistent)
  qed
  have c4: "\<forall>r. book_nz (iceberg_replenish_if_needed st s r) \<and>
            levels_consistent (bids (iceberg_replenish_if_needed st s r)) \<and>
            levels_consistent (asks (iceberg_replenish_if_needed st s r))"
  proof
    fix r
    have "book_nz (iceberg_replenish_if_needed st s r)"
      by (rule book_nz_replenish[OF assms])
    with lc[OF this]
    show "book_nz (iceberg_replenish_if_needed st s r) \<and>
            levels_consistent (bids (iceberg_replenish_if_needed st s r)) \<and>
            levels_consistent (asks (iceberg_replenish_if_needed st s r))"
      by simp
  qed
  have c5: "\<forall>p q tq tr leave q' tr' st'.
            level_cond st s p q \<and> level_iter st s p q tq tr = (leave, q', tr', st') \<longrightarrow>
            book_nz st' \<and> levels_consistent (bids st') \<and> levels_consistent (asks st')"
  proof (intro allI impI, elim conjE)
    fix p q tq tr leave q' tr' st'
    assume "level_cond st s p q" "level_iter st s p q tq tr = (leave, q', tr', st')"
    from book_nz_level_iter[OF assms this] have "book_nz st'" .
    with lc[OF this]
    show "book_nz st' \<and> levels_consistent (bids st') \<and> levels_consistent (asks st')"
      by simp
  qed
  have c6: "\<forall>p q tq tr q' tr' st'.
            process_price_level st s p q tq tr = Some (q', tr', st') \<longrightarrow>
            book_nz st' \<and> levels_consistent (bids st') \<and> levels_consistent (asks st')"
  proof (intro allI impI)
    fix p q tq tr q' tr' st'
    assume "process_price_level st s p q tq tr = Some (q', tr', st')"
    from book_nz_process_price_level[OF this assms] have "book_nz st'" .
    with lc[OF this]
    show "book_nz st' \<and> levels_consistent (bids st') \<and> levels_consistent (asks st')"
      by simp
  qed
  have c7: "\<forall>qt res st'. processOrder st qt = Some (res, st') \<longrightarrow>
            levels_consistent (bids st') \<and> levels_consistent (asks st') \<and>
            (iceberg_clip_nz qt \<longrightarrow> book_nz st')"
  proof (intro allI impI)
    fix qt res st' assume "processOrder st qt = Some (res, st')"
    then show "levels_consistent (bids st') \<and> levels_consistent (asks st') \<and>
            (iceberg_clip_nz qt \<longrightarrow> book_nz st')"
      by (rule nz_processOrder[OF _ assms])
  qed
  have c8: "book_ok st \<longrightarrow>
            (\<forall>qt. q_type qt = Market \<or> q_price qt \<noteq> None \<longrightarrow>
               (\<exists>res st'. processOrder st qt = Some (res, st')))"
  proof (intro allI impI)
    fix qt :: quote
    assume "book_ok st" "q_type qt = Market \<or> q_price qt \<noteq> None"
    from processOrder_returns[OF this]
    show "\<exists>res st'. processOrder st qt = Some (res, st')" by blast
  qed
  show ?thesis
    by (intro conjI c1 c2 c3 c4 c5 c6 c7 c8)
qed

theorem level_invariant_preserved_witness:
  "book_nz demo_book \<and> book_ok demo_book \<and> iceberg_clip_nz (market_quote Bid 12 7) \<and>
   (\<exists>res st'. processOrder demo_book (market_quote Bid 12 7) = Some (res, st') \<and>
      book_nz st' \<and> levels_consistent (bids st') \<and> levels_consistent (asks st')) \<and>
   (\<exists>ord bs'. remove_by_id (tree demo_book Ask) 3 = Inr (ord, bs') \<and>
      side_nz bs' \<and> levels_consistent bs')"
proof -
  have nz: "book_nz demo_book" by (rule book_ok_nz[OF demo_book_ok])
  have f: "iceberg_clip_nz (market_quote Bid 12 7)" "q_type (market_quote Bid 12 7) = Market"
    by (simp_all add: iceberg_clip_nz_def market_quote_def)
  have "isl (remove_by_id (tree demo_book Ask) 3) = False"
    by code_simp
  then obtain ord bs' where r: "remove_by_id (tree demo_book Ask) 3 = Inr (ord, bs')"
    by (cases "remove_by_id (tree demo_book Ask) 3") auto
  note t = level_invariant_preserved[OF nz, of Ask]
  from t have t3: "\<forall>i ord bs'. remove_by_id (tree demo_book Ask) i = Inr (ord, bs') \<longrightarrow>
            side_nz bs' \<and> levels_consistent bs'"
    by (elim conjE)
  from t have t7: "\<forall>qt res st'. processOrder demo_book qt = Some (res, st') \<longrightarrow>
            levels_consistent (bids st') \<and> levels_consistent (asks st') \<and>
            (iceberg_clip_nz qt \<longrightarrow> book_nz st')"
    by (elim conjE)
  from t have t8: "book_ok demo_book \<longrightarrow>
            (\<forall>qt. q_type qt = Market \<or> q_price qt \<noteq> None \<longrightarrow>
               (\<exists>res st'. processOrder demo_book qt = Some (res, st')))"
    by (elim conjE)
  from t8 demo_book_ok f(2) obtain res st' where
    p: "processOrder demo_book (market_quote Bid 12 7) = Some (res, st')"
    by blast
  from t7 p f(1) have a: "book_nz st' \<and> levels_consistent (bids st') \<and> levels_consistent (asks st')"
    by blast
  from t3 r have b: "side_nz bs' \<and> levels_consistent bs'"
    by blast
  from nz demo_book_ok f(1) p a r b show ?thesis by blast
qed

subsection \<open>Claims about whole submissions\<close>

text \<open>
  C5, amended. Each element of the returned trade list is a record of the executed
  quantity and the execution price. The taker's and the maker's owner are on the trade
  tape: a submission that returns appends one tape record per returned trade, in the same
  order and with the same quantity and price, each with the submitting owner as taker.
  On a well-formed book a market order, and a limit order with a price, does return.
\<close>

theorem returned_trades_match_tape:
  "(\<forall>trades ro st'. processOrder st qt = Some (Inr (trades, ro), st') \<longrightarrow>
      (\<exists>es. tape st' = tape st @ es \<and> trades = map trade_of es \<and>
            (\<forall>e \<in> set es. taker_tid e = q_tid qt))) \<and>
   (book_ok st \<and> (q_type qt = Market \<or> q_price qt \<noteq> None) \<longrightarrow>
      (\<exists>trades ro st'. processOrder st qt = Some (Inr (trades, ro), st')))"
proof (intro conjI allI impI)
  fix trades ro st' assume "processOrder st qt = Some (Inr (trades, ro), st')"
  from trades_on_tape_processOrder[OF this]
  show "\<exists>es. tape st' = tape st @ es \<and> trades = map trade_of es \<and>
             (\<forall>e \<in> set es. taker_tid e = q_tid qt)"
    by (simp add: trades_on_tape_def)
next
  assume "book_ok st \<and> (q_type qt = Market \<or> q_price qt \<noteq> None)"
  then show "\<exists>trades ro st'. processOrder st qt = Some (Inr (trades, ro), st')"
    by (auto intro: processOrder_returns)
qed

theorem returned_trades_match_tape_witness:
  "\<exists>trades ro st' es. processOrder demo_book (market_quote Bid 12 7) = Some (Inr (trades, ro), st') \<and>
     tape st' = tape demo_book @ es \<and> trades = map trade_of es \<and>
     (\<forall>e \<in> set es. taker_tid e = 7)"
proof -
  have q: "q_type (market_quote Bid 12 7) = Market" "q_tid (market_quote Bid 12 7) = 7"
    by (simp_all add: market_quote_def)
  from returned_trades_match_tape[of demo_book "market_quote Bid 12 7"] demo_book_ok q(1)
  obtain trades ro st' where
    p: "processOrder demo_book (market_quote Bid 12 7) = Some (Inr (trades, ro), st')"
    by blast
  with returned_trades_match_tape[of demo_book "market_quote Bid 12 7"] q(2)
  obtain es where "tape st' = tape demo_book @ es" "trades = map trade_of es"
    "\<forall>e \<in> set es. taker_tid e = 7"
    by auto
  with p show ?thesis by blast
qed

text \<open>
  C6. Take a book that is well formed, whose registry agrees with the resting orders, and
  whose ids are below the id counter. A market order, and a limit order with a price,
  returns, and its trades are a sequence of fills in price-time priority on the opposite
  side: each fill takes from the order at the head of the queue of the level at the best
  opposite tick of the book as it stands then (lowest ask, highest bid), writes the tape
  record of it with that order's owner as maker, leaves every other resting order in its
  place, and lets at most one order arrive, the replenishment of the consumed order, at
  the tail of the same level. After the last fill the tape and the opposite side are
  those of the call's end.
\<close>

theorem price_time_priority:
  assumes "book_ok st" "registry_consistent st" "ids_fresh st"
    and "q_type qt = Market \<or> q_price qt \<noteq> None"
  shows "\<exists>trades ro st' st1.
           processOrder st qt = Some (Inr (trades, ro), st') \<and>
           (fill_step (opposite (q_side qt)) (q_tid qt))\<^sup>*\<^sup>* (counters_advanced st qt) st1 \<and>
           tape st' = tape st1 \<and>
           tree st' (opposite (q_side qt)) = tree st1 (opposite (q_side qt))"
proof -
  from processOrder_returns[OF assms(1,4)] obtain trades ro st' where
    p: "processOrder st qt = Some (Inr (trades, ro), st')" by blast
  from crossing_is_fills[OF assms(1,2,3) p] p show ?thesis by blast
qed

theorem price_time_priority_witness:
  "book_ok demo_book \<and> registry_consistent demo_book \<and> ids_fresh demo_book \<and>
   (\<exists>trades ro st' st1.
      processOrder demo_book (market_quote Bid 12 7) = Some (Inr (trades, ro), st') \<and>
      (fill_step Ask 7)\<^sup>*\<^sup>* (counters_advanced demo_book (market_quote Bid 12 7)) st1 \<and>
      tape st' = tape st1 \<and> asks st' = asks st1)"
proof -
  have q: "q_side (market_quote Bid 12 7) = Bid" "q_tid (market_quote Bid 12 7) = 7"
    "q_type (market_quote Bid 12 7) = Market"
    by (simp_all add: market_quote_def)
  from price_time_priority[OF demo_book_ok conjunct1[OF demo_book_consistent]
      conjunct2[OF demo_book_consistent], of "market_quote Bid 12 7"]
  have "\<exists>trades ro st' st1.
      processOrder demo_book (market_quote Bid 12 7) = Some (Inr (trades, ro), st') \<and>
      (fill_step Ask 7)\<^sup>*\<^sup>* (counters_advanced demo_book (market_quote Bid 12 7)) st1 \<and>
      tape st' = tape st1 \<and> asks st' = asks st1"
    by (simp add: q opposite_def tree_def)
  with demo_book_ok demo_book_consistent show ?thesis by blast
qed

end
